theory Spec2Isabelle
  imports Complex_Main "HOL-Library.Word" "HOL-Library.Sublist"
begin

section \<open>The prof-query route: retrieval-augmented query pipeline\<close>

text \<open>
  A shallow embedding of \<^verbatim>\<open>src/app/api/prof-query/route.ts\<close>.

  A JavaScript string is a sequence of UTF-16 code units, so a string is a list of
  16-bit words. A value that may be \<^verbatim>\<open>undefined\<close> is an \<open>option\<close>. A JavaScript
  number is an IEEE 754 double: a real that the format represents, with the sum and the
  difference rounded as the format rounds them.
\<close>

subsection \<open>Strings\<close>

type_synonym code_unit = "16 word"
type_synonym jsstring = "code_unit list"

text \<open>A string literal of the source, read as code units (the literals are all ASCII).\<close>

definition js :: "string \<Rightarrow> jsstring" where
  "js s = map of_char s"

text \<open>
  The code units matched by \<^verbatim>\<open>\s\<close> in a regular expression, which are also the ones
  removed by \<^verbatim>\<open>String.prototype.trim\<close> (WhiteSpace and LineTerminator).
\<close>

definition is_space :: "code_unit \<Rightarrow> bool" where
  "is_space c \<longleftrightarrow>
     c \<in> {0x09, 0x0A, 0x0B, 0x0C, 0x0D, 0x20, 0xA0, 0x1680, 0x2028, 0x2029,
          0x202F, 0x205F, 0x3000, 0xFEFF}
     \<or> (0x2000 \<le> c \<and> c \<le> 0x200A)"

text \<open>\<^verbatim>\<open>s.trim()\<close>\<close>

definition trim :: "jsstring \<Rightarrow> jsstring" where
  "trim s = rev (dropWhile is_space (rev (dropWhile is_space s)))"

text \<open>\<^verbatim>\<open>s.replace(/\s+/g, " ")\<close>: every maximal run of white space becomes one space.\<close>

function collapse_spaces :: "jsstring \<Rightarrow> jsstring" where
  "collapse_spaces [] = []"
| "collapse_spaces (c # cs) =
     (if is_space c then 0x20 # collapse_spaces (dropWhile is_space cs)
      else c # collapse_spaces cs)"
  by pat_completeness auto
termination
  by (relation "measure length") (auto simp: length_dropWhile_le less_Suc_eq_le)

text \<open>
  \<^verbatim>\<open>x || ""\<close> for a string-valued \<open>x\<close> that may be undefined: the empty string when
  \<open>x\<close> is undefined (or empty), \<open>x\<close> itself otherwise. \<^verbatim>\<open>String(x || "")\<close> is the same.
\<close>

fun or_empty :: "jsstring option \<Rightarrow> jsstring" where
  "or_empty None = []"
| "or_empty (Some s) = s"

text \<open>Truthiness of a string-valued property: defined and not empty.\<close>

fun truthy :: "jsstring option \<Rightarrow> bool" where
  "truthy None = False"
| "truthy (Some s) = (s \<noteq> [])"

text \<open>
  \<^verbatim>\<open>a || b || ... || d\<close> on such values, ending in a string literal \<open>d\<close>: the first
  truthy operand, or \<open>d\<close>.
\<close>

fun first_truthy :: "jsstring option list \<Rightarrow> jsstring \<Rightarrow> jsstring" where
  "first_truthy [] d = d"
| "first_truthy (x # xs) d = (if truthy x then or_empty x else first_truthy xs d)"

text \<open>\<^verbatim>\<open>parts.join(sep)\<close>\<close>

fun join :: "jsstring \<Rightarrow> jsstring list \<Rightarrow> jsstring" where
  "join sep [] = []"
| "join sep [x] = x"
| "join sep (x # y # ys) = x @ sep @ join sep (y # ys)"

text \<open>\<^verbatim>\<open>String(n)\<close> for a natural number: its decimal digits.\<close>

function show_nat :: "nat \<Rightarrow> jsstring" where
  "show_nat n =
     (if n < 10 then [0x30 + of_nat n] else show_nat (n div 10) @ [0x30 + of_nat (n mod 10)])"
  by pat_completeness auto
termination
  by (relation "measure id") auto

subsection \<open>Surrogates and code points\<close>

definition is_high_surrogate :: "code_unit \<Rightarrow> bool" where
  "is_high_surrogate c \<longleftrightarrow> 0xD800 \<le> c \<and> c \<le> 0xDBFF"

definition is_low_surrogate :: "code_unit \<Rightarrow> bool" where
  "is_low_surrogate c \<longleftrightarrow> 0xDC00 \<le> c \<and> c \<le> 0xDFFF"

text \<open>The character class \<^verbatim>\<open>[\uD800-\uDFFF]\<close>.\<close>

definition is_surrogate :: "code_unit \<Rightarrow> bool" where
  "is_surrogate c \<longleftrightarrow> 0xD800 \<le> c \<and> c \<le> 0xDFFF"

text \<open>
  \<^verbatim>\<open>Array.from(s)\<close>: the string iterator yields one element per code point. A high
  surrogate immediately followed by a low surrogate is one element of two code units;
  every other code unit, a lone surrogate included, is an element of its own.
\<close>

fun code_points :: "jsstring \<Rightarrow> jsstring list" where
  "code_points [] = []"
| "code_points [c] = [[c]]"
| "code_points (c # d # cs) =
     (if is_high_surrogate c \<and> is_low_surrogate d then [c, d] # code_points cs
      else [c] # code_points (d # cs))"

text \<open>An element of \<open>code_points\<close> that is an unpaired surrogate.\<close>

fun lone_surrogate :: "jsstring \<Rightarrow> bool" where
  "lone_surrogate [c] = is_surrogate c"
| "lone_surrogate _ = False"

text \<open>
  \<^verbatim>\<open>String(s || "").replace(/[\uD800-\uDFFF]/g, "")\<close>. The expression has no \<^verbatim>\<open>u\<close>
  flag, so it is matched code unit by code unit: every code unit of the class is
  replaced by the empty string.
\<close>

definition stripLoneSurrogates :: "jsstring option \<Rightarrow> jsstring" where
  "stripLoneSurrogates s = filter (\<lambda>c. \<not> is_surrogate c) (or_empty s)"

text \<open>
  \<^verbatim>\<open>xs.slice(0, n)\<close> for an integer \<open>n\<close>: a negative \<open>n\<close> counts from the end.
\<close>

definition slice0 :: "'a list \<Rightarrow> int \<Rightarrow> 'a list" where
  "slice0 xs n = (if n < 0 then take (length xs - nat (- n)) xs else take (nat n) xs)"

text \<open>\<^verbatim>\<open>Array.from(String(s || "")).slice(0, maxLen).join("")\<close>\<close>

definition safeTruncateByCodepoints :: "jsstring option \<Rightarrow> int \<Rightarrow> jsstring" where
  "safeTruncateByCodepoints s maxLen = concat (slice0 (code_points (or_empty s)) maxLen)"

definition makePreview :: "jsstring option \<Rightarrow> int \<Rightarrow> jsstring" where
  "makePreview s maxLen =
     stripLoneSurrogates
       (Some (safeTruncateByCodepoints (Some (trim (collapse_spaces (or_empty s)))) maxLen))"

subsection \<open>Numbers\<close>

text \<open>
  A finite double is modelled by the real number it denotes, and \<^verbatim>\<open>Infinity\<close> and
  \<^verbatim>\<open>-Infinity\<close> by \<open>2 powi 1024\<close> and its negation. \<^verbatim>\<open>NaN\<close> is not modelled: a
  score is a JSON number, and of the operations of the route (a boost added to a score,
  the difference of two such sums in the comparator) only the difference of two equal
  infinities is \<^verbatim>\<open>NaN\<close>; the sort reads a \<^verbatim>\<open>NaN\<close> of its comparator as 0, which is
  what the model has for that difference.

  The binary exponent of a positive real: \<open>e\<close> with \<open>2 powi e \<le> x < 2 powi (e + 1)\<close>.
\<close>

function ilog2 :: "real \<Rightarrow> int" where
  "ilog2 x =
     (if 2 \<le> x then ilog2 (x / 2) + 1
      else if 0 < x \<and> x < 1 then ilog2 (2 * x) - 1
      else 0)"
  by pat_completeness auto
termination
proof (relation "measure (\<lambda>x. if 1 \<le> x then nat \<lfloor>x\<rfloor> else nat \<lceil>1 / x\<rceil>)")
  show "wf (measure (\<lambda>x. if 1 \<le> x then nat \<lfloor>x\<rfloor> else nat \<lceil>1 / x\<rceil>))" by simp
next
  fix x :: real assume "2 \<le> x"
  then have "\<lfloor>x / 2\<rfloor> < \<lfloor>x\<rfloor>" by linarith
  moreover have "0 \<le> \<lfloor>x / 2\<rfloor>" using \<open>2 \<le> x\<close> by simp
  ultimately show "(x / 2, x) \<in> measure (\<lambda>x. if 1 \<le> x then nat \<lfloor>x\<rfloor> else nat \<lceil>1 / x\<rceil>)"
    using \<open>2 \<le> x\<close> by simp
next
  fix x :: real assume a: "\<not> 2 \<le> x" "0 < x \<and> x < 1"
  show "(2 * x, x) \<in> measure (\<lambda>x. if 1 \<le> x then nat \<lfloor>x\<rfloor> else nat \<lceil>1 / x\<rceil>)"
  proof (cases "1 \<le> 2 * x")
    case True
    then have "\<lfloor>2 * x\<rfloor> = 1" using a by linarith
    moreover have "1 < 1 / x" using a by simp
    then have "2 \<le> \<lceil>1 / x\<rceil>" by linarith
    ultimately show ?thesis using True a by simp
  next
    case False
    have "1 / (2 * x) = (1 / x) / 2" by simp
    moreover have "2 < 1 / x" using False a by (simp add: field_simps)
    ultimately have "\<lceil>1 / (2 * x)\<rceil> < \<lceil>1 / x\<rceil>" by linarith
    moreover have "0 < \<lceil>1 / x\<rceil>" using a by (simp add: ceiling_less_iff) 
    ultimately show ?thesis using False a by simp
  qed
qed

declare ilog2.simps [simp del]

text \<open>Rounding to the nearest integer, a tie going to the even one.\<close>

definition round_half_even :: "real \<Rightarrow> int" where
  "round_half_even y =
     (let f = \<lfloor>y\<rfloor>
      in if y - of_int f < 1 / 2 then f
         else if 1 / 2 < y - of_int f then f + 1
         else if even f then f else f + 1)"

text \<open>A result of magnitude \<open>2 powi 1024\<close> or more is an infinity.\<close>

definition saturate :: "real \<Rightarrow> real" where
  "saturate r =
     (if 2 powi 1024 \<le> r then 2 powi 1024
      else if r \<le> - (2 powi 1024) then - (2 powi 1024)
      else r)"

text \<open>
  The double nearest to a real (round to nearest, ties to even): 53 significant bits,
  the least exponent of a unit in the last place being -1074 (subnormal numbers). This
  is how \<^verbatim>\<open>JSON.parse\<close> reads a number and what a numeric literal of the source
  denotes; a double is mapped to itself.
\<close>

definition to_double :: "real \<Rightarrow> real" where
  "to_double x =
     (let k = max (ilog2 \<bar>x\<bar> - 52) (- 1074)
      in saturate (of_int (round_half_even (x / 2 powi k)) * 2 powi k))"

text \<open>
  \<^verbatim>\<open>x + y\<close> and \<^verbatim>\<open>x - y\<close> on doubles: the exact result, rounded. With an infinite
  operand they are used as the route uses them: an infinite score plus a boost is that
  infinity, and the difference in the comparator has the sign of the IEEE difference.
\<close>

definition num_add :: "real \<Rightarrow> real \<Rightarrow> real" where
  "num_add x y = to_double (x + y)"

definition num_sub :: "real \<Rightarrow> real \<Rightarrow> real" where
  "num_sub x y = to_double (x - y)"

subsection \<open>Intent\<close>

datatype intent = dorm | study_place | general

text \<open>An alternative of a pattern \<^verbatim>\<open>/(a|b|...)/\<close> matches at the start of the rest of the input.\<close>

fun starts_with :: "jsstring \<Rightarrow> jsstring \<Rightarrow> bool" where
  "starts_with [] s = True"
| "starts_with (a # as) [] = False"
| "starts_with (a # as) (c # cs) = (a = c \<and> starts_with as cs)"

text \<open>
  \<^verbatim>\<open>/(a|b|...)/.test(s)\<close>: the pattern is tried at every position of \<open>s\<close>, from the left.
\<close>

fun regex_test :: "jsstring list \<Rightarrow> jsstring \<Rightarrow> bool" where
  "regex_test alts [] = list_ex (\<lambda>a. starts_with a []) alts"
| "regex_test alts (c # cs) =
     (list_ex (\<lambda>a. starts_with a (c # cs)) alts \<or> regex_test alts cs)"

definition housing_pattern :: "jsstring list" where
  "housing_pattern =
     [js ''dorm'', js ''rent'', js ''room'', js ''apartment'', js ''housing'', js ''wohnheim'']"

definition study_pattern :: "jsstring list" where
  "study_pattern =
     [js ''study'', js ''library'', js ''quiet'', js ''wifi'', js ''open'', js ''cafe'',
      js ''outlet'', js ''socket'']"

text \<open>
  \<^verbatim>\<open>String.prototype.toLowerCase\<close> is the Unicode case mapping of the host; it is the
  parameter \<open>lc\<close> of every function that calls it. \<open>ascii_lower\<close> is that mapping on
  ASCII text.
\<close>

definition ascii_lower :: "jsstring \<Rightarrow> jsstring" where
  "ascii_lower s = map (\<lambda>c. if 0x41 \<le> c \<and> c \<le> 0x5A then c + 0x20 else c) s"

definition inferIntent :: "(jsstring \<Rightarrow> jsstring) \<Rightarrow> jsstring option \<Rightarrow> intent" where
  "inferIntent lc q =
     (let s = lc (or_empty q) in
      if regex_test housing_pattern s then dorm
      else if regex_test study_pattern s then study_place
      else general)"

subsection \<open>Candidates\<close>

text \<open>
  The metadata of a match, as far as the route reads it. The fields are text; a field
  that is absent is \<open>None\<close>. The score of a match is the JSON number of the reply of
  the index.
\<close>

record metadata =
  entity_type :: "jsstring option"
  kind :: "jsstring option"
  entity_id :: "jsstring option"
  name :: "jsstring option"
  section_md :: "jsstring option"
  text_md :: "jsstring option"
  text_preview :: "jsstring option"
  chunk_block :: "jsstring option"
  chunkBlock :: "jsstring option"

record candidate =
  id_cand :: "jsstring option"
  score :: "real option"
  metadata :: "metadata option"

text \<open>\<^verbatim>\<open>match?.metadata || {}\<close>\<close>

definition no_metadata :: metadata where
  "no_metadata =
     \<lparr>entity_type = None, kind = None, entity_id = None, name = None, section_md = None,
      text_md = None, text_preview = None, chunk_block = None, chunkBlock = None\<rparr>"

definition md_of :: "'a candidate_scheme \<Rightarrow> metadata" where
  "md_of m = (case metadata m of None \<Rightarrow> no_metadata | Some md \<Rightarrow> md)"

text \<open>\<^verbatim>\<open>Number(m.score ?? 0)\<close>: the score as the double that the client holds.\<close>

definition base_score :: "'a candidate_scheme \<Rightarrow> real" where
  "base_score m = (case score m of None \<Rightarrow> 0 | Some x \<Rightarrow> to_double x)"

definition scoreBoost :: "(jsstring \<Rightarrow> jsstring) \<Rightarrow> 'a candidate_scheme \<Rightarrow> intent \<Rightarrow> real" where
  "scoreBoost lc m i =
     (let md = md_of m;
          t = lc (first_truthy [entity_type md, kind md] [])
      in if i = dorm \<and> t = js ''dorm'' then to_double 0.08
         else if i = study_place \<and> t = js ''study_place'' then to_double 0.08
         else if i = general \<and> (t = js ''text'' \<or> t = js ''text_chunk'') then to_double 0.03
         else 0)"

definition dedupeKey :: "'a candidate_scheme \<Rightarrow> jsstring" where
  "dedupeKey m =
     (let md = md_of m
      in if truthy (entity_type md) \<and> truthy (entity_id md)
           then or_empty (entity_type md) @ js '':'' @ or_empty (entity_id md)
         else if truthy (name md) then js ''name:'' @ or_empty (name md)
         else if truthy (section_md md) then js ''section:'' @ or_empty (section_md md)
         else js ''id:'' @ or_empty (id_cand m))"

subsection \<open>Boost, sort, pick\<close>

text \<open>\<^verbatim>\<open>{ ...m, _boostedScore: ... }\<close>: the match with one more field.\<close>

record boosted = candidate +
  u_boostedScore :: real

definition with_boost :: "(jsstring \<Rightarrow> jsstring) \<Rightarrow> intent \<Rightarrow> candidate \<Rightarrow> boosted" where
  "with_boost lc i m =
     \<lparr>id_cand = id_cand m, score = score m, metadata = metadata m,
      u_boostedScore = num_add (base_score m) (scoreBoost lc m i)\<rparr>"

text \<open>
  \<^verbatim>\<open>Array.prototype.sort(cmp)\<close> is a stable sort: an element goes before the first
  element it does not have to follow (\<open>cmp x y \<le> 0\<close>), so elements that compare equal
  keep their order. Every stable sort gives this result for a comparator whose sign is
  the sign of a difference of keys.
\<close>

fun insort_cmp :: "('a \<Rightarrow> 'a \<Rightarrow> real) \<Rightarrow> 'a \<Rightarrow> 'a list \<Rightarrow> 'a list" where
  "insort_cmp cmp x [] = [x]"
| "insort_cmp cmp x (y # ys) =
     (if cmp x y \<le> 0 then x # y # ys else y # insort_cmp cmp x ys)"

definition sort_cmp :: "('a \<Rightarrow> 'a \<Rightarrow> real) \<Rightarrow> 'a list \<Rightarrow> 'a list" where
  "sort_cmp cmp xs = foldr (insort_cmp cmp) xs []"

text \<open>\<^verbatim>\<open>(a, b) => Number(b._boostedScore ?? 0) - Number(a._boostedScore ?? 0)\<close>\<close>

definition by_boosted_desc :: "boosted \<Rightarrow> boosted \<Rightarrow> real" where
  "by_boosted_desc a b = num_sub (u_boostedScore b) (u_boostedScore a)"

text \<open>The constant \<^verbatim>\<open>boosted\<close> of \<^verbatim>\<open>POST\<close>.\<close>

definition boosted_sorted :: "(jsstring \<Rightarrow> jsstring) \<Rightarrow> intent \<Rightarrow> candidate list \<Rightarrow> boosted list" where
  "boosted_sorted lc i rawMatches = sort_cmp by_boosted_desc (map (with_boost lc i) rawMatches)"

text \<open>\<^verbatim>\<open>String(m?.metadata?.text || "").trim()\<close> is not empty.\<close>

definition has_text :: "'a candidate_scheme \<Rightarrow> bool" where
  "has_text m \<longleftrightarrow> trim (or_empty (text_md (md_of m))) \<noteq> []"

record pick_state =
  picked :: "boosted list"
  seen :: "jsstring set"

text \<open>The body of the loop after the test of the cap: two \<^verbatim>\<open>continue\<close>s, or the candidate is kept.\<close>

definition pick_step :: "pick_state \<Rightarrow> boosted \<Rightarrow> pick_state" where
  "pick_step st m =
     (let key = dedupeKey m
      in if key \<in> seen st then st
         else if \<not> has_text m then st
         else \<lparr>picked = picked st @ [m], seen = insert key (seen st)\<rparr>)"

text \<open>\<^verbatim>\<open>for (const m of boosted) { if (picked.length >= 8) break; ... }\<close>\<close>

fun pick_loop :: "pick_state \<Rightarrow> boosted list \<Rightarrow> pick_state" where
  "pick_loop st [] = st"
| "pick_loop st (m # ms) =
     (if length (picked st) \<ge> 8 then st else pick_loop (pick_step st m) ms)"

text \<open>Step 3 of \<^verbatim>\<open>POST\<close>: boost, sort and pick.\<close>

definition rankAndDedupe :: "(jsstring \<Rightarrow> jsstring) \<Rightarrow> candidate list \<Rightarrow> intent \<Rightarrow> boosted list" where
  "rankAndDedupe lc rawMatches i =
     picked (pick_loop \<lparr>picked = [], seen = {}\<rparr> (boosted_sorted lc i rawMatches))"

subsection \<open>Projection to the client and context\<close>

record MatchForClient =
  score_client :: real
  boostedScore :: real
  type_client :: jsstring
  title :: jsstring
  snippet :: jsstring

definition matchToClient :: "(jsstring \<Rightarrow> jsstring) \<Rightarrow> intent \<Rightarrow> 'a candidate_scheme \<Rightarrow> MatchForClient" where
  "matchToClient lc i m =
     (let md = md_of m;
          baseScore = base_score m
      in \<lparr>score_client = baseScore,
          boostedScore = num_add baseScore (scoreBoost lc m i),
          type_client = first_truthy [entity_type md, kind md] (js ''unknown''),
          title = first_truthy [name md, section_md md, chunk_block md, chunkBlock md]
                    (js ''(result)''),
          snippet = (if truthy (text_preview md) then makePreview (text_preview md) 220
                     else makePreview (Some (or_empty (text_md md))) 220)\<rparr>)"

definition matchesToClient :: "(jsstring \<Rightarrow> jsstring) \<Rightarrow> 'a candidate_scheme list \<Rightarrow> intent \<Rightarrow> MatchForClient list" where
  "matchesToClient lc ms i = map (matchToClient lc i) ms"

definition context_block :: "nat \<Rightarrow> 'a candidate_scheme \<Rightarrow> jsstring" where
  "context_block i m =
     (let md = md_of m
      in join [0x0A]
           [js ''[Source '' @ show_nat (i + 1) @ js ''] ''
              @ first_truthy [entity_type md, kind md] (js ''unknown'') @ js '': ''
              @ first_truthy [name md, section_md md, chunk_block md] (js ''(untitled)''),
            [],
            trim (stripLoneSurrogates (Some (or_empty (text_md md))))])"

definition buildContext :: "'a candidate_scheme list \<Rightarrow> jsstring" where
  "buildContext ms =
     join ([0x0A, 0x0A] @ js ''---'' @ [0x0A, 0x0A])
       (map (\<lambda>(i, m). context_block i m) (enumerate 0 ms))"

subsection \<open>Request, external services, response\<close>

text \<open>
  A parsed request body is a JSON value. An object is the list of its properties
  (the keys are distinct).
\<close>

datatype json =
  JNull | JBool bool | JNum real | JStr jsstring | JArr "json list"
  | JObj "(jsstring \<times> json) list"

text \<open>\<^verbatim>\<open>v.key\<close> for a \<open>v\<close> that is not null, where \<open>key\<close> is \<^verbatim>\<open>messages\<close>, \<^verbatim>\<open>role\<close> or \<^verbatim>\<open>content\<close>:
  only an object can have the property.\<close>

fun get_prop :: "json \<Rightarrow> jsstring \<Rightarrow> json option" where
  "get_prop (JObj kvs) k = map_of kvs k"
| "get_prop _ k = None"

text \<open>\<^verbatim>\<open>v?.key\<close>\<close>

fun opt_prop :: "json \<Rightarrow> jsstring \<Rightarrow> json option" where
  "opt_prop JNull k = None"
| "opt_prop v k = get_prop v k"

text \<open>\<^verbatim>\<open>!v\<close> is false.\<close>

fun json_truthy :: "json \<Rightarrow> bool" where
  "json_truthy JNull = False"
| "json_truthy (JBool b) = b"
| "json_truthy (JNum x) = (x \<noteq> 0)"
| "json_truthy (JStr s) = (s \<noteq> [])"
| "json_truthy (JArr xs) = True"
| "json_truthy (JObj kvs) = True"

text \<open>The value of a property that is a string (\<^verbatim>\<open>content: string\<close> in \<^verbatim>\<open>ChatMsg\<close>).\<close>

fun as_string :: "json option \<Rightarrow> jsstring option" where
  "as_string (Some (JStr s)) = Some s"
| "as_string _ = None"

text \<open>What a failed call throws: an \<^verbatim>\<open>Error\<close> with its message, or another value.\<close>

datatype thrown = Error jsstring | NonError

datatype call = RewriteCall | EmbedCall | RetrieveCall | SynthesizeCall

text \<open>
  The external services. Each takes what the route sends (the prompts are fixed) and
  either throws or returns what the route reads from the reply:
  \<^item> the rewriting chat completion gets the history and returns
    \<^verbatim>\<open>resp.choices[0]?.message?.content\<close>;
  \<^item> the embedding call gets the input and returns \<^verbatim>\<open>emb.data[0].embedding\<close>;
  \<^item> the index query gets the vector and \<^verbatim>\<open>topK\<close> and returns \<^verbatim>\<open>res?.matches\<close>;
  \<^item> the answering chat completion gets the question, the intent and the context and
    returns \<^verbatim>\<open>completion.choices[0]?.message?.content\<close>.
\<close>

record services =
  chat_rewrite :: "(json option \<times> json option) list \<Rightarrow> thrown + jsstring option"
  embeddings_create :: "jsstring \<Rightarrow> thrown + real list"
  index_query :: "real list \<Rightarrow> nat \<Rightarrow> thrown + candidate list option"
  chat_answer :: "jsstring \<Rightarrow> intent \<Rightarrow> jsstring \<Rightarrow> thrown + jsstring option"

text \<open>A function that calls a service returns its result and the calls it made.\<close>

type_synonym 'a called = "(thrown + 'a) \<times> call list"

text \<open>\<^verbatim>\<open>messages.slice(-12)\<close>\<close>

definition last12 :: "'a list \<Rightarrow> 'a list" where
  "last12 xs = drop (length xs - 12) xs"

text \<open>\<^verbatim>\<open>messages[messages.length - 1]\<close>, undefined for the empty array.\<close>

definition last_elem :: "'a list \<Rightarrow> 'a option" where
  "last_elem xs = (if xs = [] then None else Some (last xs))"

text \<open>\<^verbatim>\<open>messages[messages.length - 1]?.content\<close>\<close>

definition last_content :: "json list \<Rightarrow> json option" where
  "last_content msgs = (case last_elem msgs of None \<Rightarrow> None | Some m \<Rightarrow> opt_prop m (js ''content''))"

text \<open>The message of the TypeError thrown by \<^verbatim>\<open>m.role\<close> when \<open>m\<close> is null.\<close>

definition null_property_error :: thrown where
  "null_property_error = Error (js ''Cannot read properties of null (reading 'role')'')"

definition rewriteToStandalone :: "services \<Rightarrow> json list \<Rightarrow> jsstring called" where
  "rewriteToStandalone sv msgs =
     (let window = last12 msgs
      in if JNull \<in> set window then (Inl null_property_error, [])
         else
           (case chat_rewrite sv
                   (map (\<lambda>m. (get_prop m (js ''role''), get_prop m (js ''content''))) window) of
              Inl e \<Rightarrow> (Inl e, [RewriteCall])
            | Inr reply \<Rightarrow>
                (Inr (first_truthy [map_option trim reply, as_string (last_content msgs)] []),
                 [RewriteCall])))"

definition embedQuery :: "services \<Rightarrow> jsstring \<Rightarrow> real list called" where
  "embedQuery sv q = (embeddings_create sv (stripLoneSurrogates (Some q)), [EmbedCall])"

definition pineconeQuery :: "services \<Rightarrow> real list \<Rightarrow> nat \<Rightarrow> candidate list option called" where
  "pineconeQuery sv v topK = (index_query sv v topK, [RetrieveCall])"

definition askLLM :: "services \<Rightarrow> jsstring \<Rightarrow> intent \<Rightarrow> jsstring \<Rightarrow> jsstring called" where
  "askLLM sv finalQuestion i ctxt =
     (case chat_answer sv finalQuestion i ctxt of
        Inl e \<Rightarrow> (Inl e, [SynthesizeCall])
      | Inr reply \<Rightarrow> (Inr (first_truthy [map_option trim reply] []), [SynthesizeCall]))"

datatype response_body =
  ErrorBody jsstring
  | AnswerBody (answer: jsstring) (matches: "MatchForClient list")
      (rewrittenQuestion: jsstring) (intent_field: "intent option")

record response =
  status :: nat
  body :: response_body

text \<open>The \<^verbatim>\<open>catch\<close> of \<^verbatim>\<open>POST\<close>.\<close>

fun internal_error :: "thrown \<Rightarrow> response" where
  "internal_error (Error msg) = \<lparr>status = 500, body = ErrorBody msg\<rparr>"
| "internal_error NonError = \<lparr>status = 500, body = ErrorBody (js ''Internal server error'')\<rparr>"

definition no_candidates_answer :: jsstring where
  "no_candidates_answer =
     js ''I couldn't find relevant information for that in the current knowledge base.''"

definition no_usable_answer :: jsstring where
  "no_usable_answer = js ''I found related entries, but none had usable text to answer with.''"

text \<open>The two checks at the head of \<^verbatim>\<open>POST\<close>: the 400 response, or the messages.\<close>

definition validate :: "json \<Rightarrow> response + json list" where
  \<open>validate b =
     (case opt_prop b (js ''messages'') of
        Some (JArr msgs) \<Rightarrow>
          (if msgs = [] then
             Inl \<lparr>status = 400,
                  body = ErrorBody (js ''Missing or invalid "messages" array in body'')\<rparr>
           else
             (let l = last msgs
              in if \<not> json_truthy l
                    \<or> get_prop l (js ''role'') \<noteq> Some (JStr (js ''user''))
                    \<or> as_string (get_prop l (js ''content'')) = None
                    \<or> trim (or_empty (as_string (get_prop l (js ''content'')))) = []
                 then
                   Inl \<lparr>status = 400,
                        body = ErrorBody
                          (js ''The last message must be a user message with non-empty "content".'')\<rparr>
                 else Inr msgs))
      | _ \<Rightarrow>
          Inl \<lparr>status = 400,
               body = ErrorBody (js ''Missing or invalid "messages" array in body'')\<rparr>)\<close>

text \<open>\<^verbatim>\<open>POST\<close> after the validation.\<close>

definition answer_pipeline :: "(jsstring \<Rightarrow> jsstring) \<Rightarrow> services \<Rightarrow> json list \<Rightarrow> response \<times> call list" where
  "answer_pipeline lc sv msgs =
     (case rewriteToStandalone sv msgs of
        (Inl e, c1) \<Rightarrow> (internal_error e, c1)
      | (Inr rq, c1) \<Rightarrow>
          (let i = inferIntent lc (Some rq)
           in case embedQuery sv rq of
                (Inl e, c2) \<Rightarrow> (internal_error e, c1 @ c2)
              | (Inr qVec, c2) \<Rightarrow>
                  (case pineconeQuery sv qVec 18 of
                     (Inl e, c3) \<Rightarrow> (internal_error e, c1 @ c2 @ c3)
                   | (Inr res, c3) \<Rightarrow>
                       (let rawMatches = (case res of None \<Rightarrow> [] | Some ms \<Rightarrow> ms)
                        in if rawMatches = [] then
                             (\<lparr>status = 200,
                               body = AnswerBody no_candidates_answer [] rq None\<rparr>,
                              c1 @ c2 @ c3)
                           else
                             (let pk = rankAndDedupe lc rawMatches i
                              in if pk = [] then
                                   (\<lparr>status = 200,
                                     body = AnswerBody no_usable_answer [] rq None\<rparr>,
                                    c1 @ c2 @ c3)
                                 else
                                   (case askLLM sv rq i (buildContext pk) of
                                      (Inl e, c4) \<Rightarrow> (internal_error e, c1 @ c2 @ c3 @ c4)
                                    | (Inr ans, c4) \<Rightarrow>
                                        (\<lparr>status = 200,
                                          body = AnswerBody ans (matchesToClient lc pk i) rq
                                                   (Some i)\<rparr>,
                                         c1 @ c2 @ c3 @ c4)))))))"

text \<open>
  The request, as far as the route reads it: what \<^verbatim>\<open>await req.json()\<close> does. It throws
  when the body is not JSON (an empty body included), and returns the parsed body
  otherwise.
\<close>

record request =
  req_json :: "thrown + json"

text \<open>
  \<^verbatim>\<open>POST\<close>: the response, and the external calls made. The whole body is in a
  \<^verbatim>\<open>try\<close>, so a throwing \<^verbatim>\<open>req.json()\<close> ends in the \<^verbatim>\<open>catch\<close>.
\<close>

definition POST :: "(jsstring \<Rightarrow> jsstring) \<Rightarrow> services \<Rightarrow> request \<Rightarrow> response \<times> call list" where
  "POST lc sv req =
     (case req_json req of
        Inl e \<Rightarrow> (internal_error e, [])
      | Inr b \<Rightarrow>
          (case validate b of
             Inl bad \<Rightarrow> (bad, [])
           | Inr msgs \<Rightarrow> answer_pipeline lc sv msgs))"

subsection \<open>Notions the statements use\<close>

text \<open>The type of a candidate as \<open>scoreBoost\<close> reads it: the entity type, else the kind,
  else the empty string, in lower case.\<close>

definition candidate_type :: "(jsstring \<Rightarrow> jsstring) \<Rightarrow> 'a candidate_scheme \<Rightarrow> jsstring" where
  "candidate_type lc m = lc (first_truthy [entity_type (md_of m), kind (md_of m)] [])"

text \<open>The boost in the words of the specification, by intent and candidate type.\<close>

fun boost_spec :: "intent \<Rightarrow> jsstring \<Rightarrow> real" where
  "boost_spec dorm t = (if t = js ''dorm'' then 0.08 else 0)"
| "boost_spec study_place t = (if t = js ''study_place'' then 0.08 else 0)"
| "boost_spec general t = (if t = js ''text'' \<or> t = js ''text_chunk'' then 0.03 else 0)"

text \<open>
  The boosted score in the words of the specification: the score plus the boost, as
  doubles.
\<close>

definition score_plus_boost :: "(jsstring \<Rightarrow> jsstring) \<Rightarrow> intent \<Rightarrow> 'a candidate_scheme \<Rightarrow> real" where
  "score_plus_boost lc i m =
     num_add (base_score m) (to_double (boost_spec i (candidate_type lc m)))"

text \<open>A real on the grid of the doubles: a multiple of the least subnormal number.\<close>

definition representable :: "real \<Rightarrow> bool" where
  "representable x \<longleftrightarrow> (\<exists>n :: int. x = of_int n * 2 powi (- 1074))"

text \<open>The candidates accepted when the walk has gone over a prefix of the sorted sequence.\<close>

definition picked_after :: "boosted list \<Rightarrow> boosted list" where
  "picked_after ms = picked (pick_loop \<lparr>picked = [], seen = {}\<rparr> ms)"

text \<open>The invariant of the loop: \<open>seen\<close> holds the keys of the accepted candidates, which
  are pairwise different, and every accepted candidate has text.\<close>

definition pick_inv :: "pick_state \<Rightarrow> bool" where
  "pick_inv st \<longleftrightarrow>
     seen st = dedupeKey ` set (picked st) \<and> distinct (map dedupeKey (picked st))
     \<and> (\<forall>x \<in> set (picked st). has_text x)"

subsection \<open>Sample data\<close>

text \<open>Two entries for the same place, the better ranked one without usable text.\<close>

definition cand_blank :: candidate where
  "cand_blank =
     \<lparr>id_cand = Some (js ''a''), score = Some 0.9,
      metadata = Some (no_metadata\<lparr>name := Some (js ''Olydorf''), text_md := Some (js '' '')\<rparr>)\<rparr>"

definition cand_text :: candidate where
  "cand_text =
     \<lparr>id_cand = Some (js ''b''), score = Some 0.5,
      metadata = Some (no_metadata\<lparr>name := Some (js ''Olydorf''),
                                   text_md := Some (js ''Rent 350'')\<rparr>)\<rparr>"

text \<open>A dorm whose type is written with a capital, and a guide chunk without a score.\<close>

definition cand_dorm :: candidate where
  "cand_dorm =
     \<lparr>id_cand = Some (js ''c''), score = Some 0.5,
      metadata = Some (no_metadata\<lparr>entity_type := Some (js ''Dorm''),
                                   entity_id := Some (js ''12''),
                                   text_md := Some (js ''Quiet'')\<rparr>)\<rparr>"

definition cand_noscore :: candidate where
  "cand_noscore =
     \<lparr>id_cand = Some (js ''d''), score = None,
      metadata = Some (no_metadata\<lparr>kind := Some (js ''text_chunk''),
                                   text_md := Some (js ''Visa'')\<rparr>)\<rparr>"

text \<open>
  A dorm with score 0.7 and a guide chunk with score 0.78, in the order of the index.
\<close>

definition cand_dorm_07 :: candidate where
  "cand_dorm_07 =
     \<lparr>id_cand = Some (js ''p''), score = Some 0.7,
      metadata = Some (no_metadata\<lparr>entity_type := Some (js ''dorm''),
                                   entity_id := Some (js ''7''),
                                   text_md := Some (js ''Rent 300'')\<rparr>)\<rparr>"

definition cand_chunk_078 :: candidate where
  "cand_chunk_078 =
     \<lparr>id_cand = Some (js ''q''), score = Some 0.78,
      metadata = Some (no_metadata\<lparr>kind := Some (js ''text_chunk''),
                                   text_md := Some (js ''Visa'')\<rparr>)\<rparr>"

text \<open>Nine candidates with text and keys of their own.\<close>

definition numbered :: "code_unit \<Rightarrow> real \<Rightarrow> candidate" where
  "numbered c s =
     \<lparr>id_cand = Some [c], score = Some s,
      metadata = Some (no_metadata\<lparr>text_md := Some (js ''x'')\<rparr>)\<rparr>"

definition nine_candidates :: "candidate list" where
  "nine_candidates =
     [numbered 0x61 0.1, numbered 0x62 0.9, numbered 0x63 0.5, numbered 0x64 0.5,
      numbered 0x65 0.3, numbered 0x66 0.7, numbered 0x67 0.2, numbered 0x68 0.8,
      numbered 0x69 0.4]"

text \<open>
  A body with the given messages and the request that carries it, the request with an
  empty body, a user turn, and services with fixed replies.
\<close>

definition body_of :: "json list \<Rightarrow> json" where
  "body_of msgs = JObj [(js ''messages'', JArr msgs)]"

definition request_of :: "json list \<Rightarrow> request" where
  "request_of msgs = \<lparr>req_json = Inr (body_of msgs)\<rparr>"

definition empty_body_request :: request where
  "empty_body_request = \<lparr>req_json = Inl (Error (js ''Unexpected end of JSON input''))\<rparr>"

definition user_turn :: "string \<Rightarrow> json" where
  "user_turn c = JObj [(js ''role'', JStr (js ''user'')), (js ''content'', JStr (js c))]"

definition services_returning :: "jsstring option \<Rightarrow> candidate list option \<Rightarrow> services" where
  "services_returning reply found =
     \<lparr>chat_rewrite = (\<lambda>h. Inr reply),
      embeddings_create = (\<lambda>q. Inr [0.1, 0.2]),
      index_query = (\<lambda>v k. Inr found),
      chat_answer = (\<lambda>q i c. Inr (Some (js ''Try Olydorf.'')))\<rparr>"

lemmas eval_defs = cand_blank_def cand_text_def cand_dorm_def cand_noscore_def numbered_def
  cand_dorm_07_def cand_chunk_078_def
  no_metadata_def md_of_def base_score_def scoreBoost_def dedupeKey_def has_text_def
  with_boost_def boosted_sorted_def sort_cmp_def by_boosted_desc_def pick_step_def
  rankAndDedupe_def picked_after_def trim_def is_space_def js_def ascii_lower_def Let_def
  num_add_def num_sub_def to_double_def ilog2.simps round_half_even_def saturate_def

lemmas post_defs = POST_def validate_def answer_pipeline_def rewriteToStandalone_def
  embedQuery_def pineconeQuery_def askLLM_def last12_def last_elem_def last_content_def
  request_of_def body_of_def empty_body_request_def user_turn_def services_returning_def inferIntent_def housing_pattern_def
  study_pattern_def stripLoneSurrogates_def is_surrogate_def

subsection \<open>Rounding to a double\<close>

lemma ilog2_bounds: "0 < x \<Longrightarrow> 2 powi (ilog2 x) \<le> x \<and> x < 2 powi (ilog2 x + 1)"
proof (induction x rule: ilog2.induct)
  case (1 x)
  show ?case
  proof (cases "2 \<le> x")
    case True
    then have ih: "2 powi (ilog2 (x / 2)) \<le> x / 2 \<and> x / 2 < 2 powi (ilog2 (x / 2) + 1)"
      using "1.IH"(1) "1.prems" by simp
    have e: "ilog2 x = ilog2 (x / 2) + 1"
      using True by (subst ilog2.simps) simp
    show ?thesis
      unfolding e using ih by (simp add: power_int_add)
  next
    case False
    show ?thesis
    proof (cases "x < 1")
      case True
      then have ih: "2 powi (ilog2 (2 * x)) \<le> 2 * x \<and> 2 * x < 2 powi (ilog2 (2 * x) + 1)"
        using "1.IH"(2) "1.prems" False by simp
      have e: "ilog2 x = ilog2 (2 * x) - 1"
        using True False "1.prems" by (subst ilog2.simps) simp
      show ?thesis
        unfolding e using ih by (simp add: power_int_add power_int_diff)
    next
      case ge1: False
      have e: "ilog2 x = 0"
        using ge1 False by (subst ilog2.simps) simp
      show ?thesis
        unfolding e using ge1 False by simp
    qed
  qed
qed

lemma ilog2_unique:
  assumes "2 powi e \<le> x" "x < 2 powi (e + 1)"
  shows "ilog2 x = e"
proof -
  have pos: "0 < x"
    using assms(1) zero_less_power_int [of "2::real" e] by linarith
  have b: "2 powi (ilog2 x) \<le> x" "x < 2 powi (ilog2 x + 1)"
    using ilog2_bounds [OF pos] by simp_all
  have "(2::real) powi e < 2 powi (ilog2 x + 1)"
    using assms(1) b(2) by linarith
  then have "e < ilog2 x + 1"
    by (metis power_int_increasing not_less one_le_numeral)
  moreover have "(2::real) powi (ilog2 x) < 2 powi (e + 1)"
    using assms(2) b(1) by linarith
  then have "ilog2 x < e + 1"
    by (metis power_int_increasing not_less one_le_numeral)
  ultimately show ?thesis by linarith
qed

lemma round_half_even_of_int [simp]: "round_half_even (of_int n) = n"
  by (simp add: round_half_even_def)

lemma round_half_even_ge: "of_int n \<le> y \<Longrightarrow> n \<le> round_half_even y"
  unfolding round_half_even_def Let_def by (auto; linarith)

lemma round_half_even_le: "y \<le> of_int n \<Longrightarrow> round_half_even y \<le> n"
  unfolding round_half_even_def Let_def by (auto; linarith)

lemma ilog2_0 [simp]: "ilog2 0 = 0"
  by (subst ilog2.simps) simp

lemma round_half_even_0 [simp]: "round_half_even 0 = 0"
  by (simp add: round_half_even_def)

lemma saturate_0 [simp]: "saturate 0 = 0"
  by (simp add: saturate_def)

lemma to_double_0 [simp]: "to_double 0 = 0"
  by (simp add: to_double_def)

lemma powi_split: "k' \<le> k \<Longrightarrow> (2::real) powi k = of_int (2 ^ nat (k - k')) * 2 powi k'"
proof -
  assume "k' \<le> k"
  then have "(2::real) powi k = 2 powi (int (nat (k - k')) + k')" by simp
  also have "\<dots> = 2 powi (int (nat (k - k'))) * 2 powi k'"
    by (rule power_int_add) simp
  finally show ?thesis by (simp add: power_int_def del: of_nat_diff)
qed

lemma scaled_representable:
  "- 1074 \<le> k \<Longrightarrow> representable (of_int n * 2 powi k)"
  unfolding representable_def
  using powi_split [of "- 1074" k]
  by (intro exI [of _ "n * 2 ^ nat (k + 1074)"]) simp

lemma saturate_representable: "representable r \<Longrightarrow> representable (saturate r)"
  using scaled_representable [of 1024 1] scaled_representable [of 1024 "- 1"]
  by (simp add: saturate_def)

lemma to_double_representable: "representable (to_double x)"
  unfolding to_double_def Let_def
  by (intro saturate_representable scaled_representable) simp

lemma saturate_pos: "0 < r \<Longrightarrow> 0 < saturate r"
  by (simp add: saturate_def)

lemma saturate_neg: "r < 0 \<Longrightarrow> saturate r < 0"
  using zero_less_power_int [of "2::real" 1024] by (simp add: saturate_def)

lemma scaled_ge_1:
  assumes "2 powi (- 1074) \<le> z"
  shows "1 \<le> z / 2 powi (max (ilog2 z - 52) (- 1074))"
proof -
  have pos: "0 < z"
    using assms zero_less_power_int [of "2::real" "- 1074"] by linarith
  let ?k = "max (ilog2 z - 52) (- 1074)"
  have kpos: "(0::real) < 2 powi ?k" by (simp add: zero_less_power_int)
  have "(2::real) powi ?k \<le> z"
  proof (cases "ilog2 z - 52 \<le> - 1074")
    case True
    then show ?thesis using assms by (simp add: max_def)
  next
    case False
    then have "?k = ilog2 z - 52" by simp
    moreover have "(2::real) powi (ilog2 z - 52) \<le> 2 powi (ilog2 z)"
      by (rule power_int_increasing) simp_all
    ultimately show ?thesis using ilog2_bounds [OF pos] by simp
  qed
  then show ?thesis using kpos by (simp add: field_simps)
qed

lemma to_double_pos:
  assumes "2 powi (- 1074) \<le> z"
  shows "0 < to_double z"
proof -
  have pos: "0 < z"
    using assms zero_less_power_int [of "2::real" "- 1074"] by linarith
  let ?k = "max (ilog2 z - 52) (- 1074)"
  have "1 \<le> round_half_even (z / 2 powi ?k)"
    using scaled_ge_1 [OF assms] by (intro round_half_even_ge) simp
  then have "0 < of_int (round_half_even (z / 2 powi ?k)) * (2::real) powi ?k"
    by (simp add: zero_less_power_int)
  then show ?thesis
    using pos unfolding to_double_def Let_def by (simp add: saturate_pos)
qed

lemma to_double_neg:
  assumes "z \<le> - (2 powi (- 1074))"
  shows "to_double z < 0"
proof -
  have neg: "z < 0"
    using assms zero_less_power_int [of "2::real" "- 1074"] by linarith
  let ?k = "max (ilog2 (- z) - 52) (- 1074)"
  have kpos: "(0::real) < 2 powi ?k" by (simp add: zero_less_power_int)
  have "1 \<le> (- z) / 2 powi ?k"
    using assms by (intro scaled_ge_1) simp
  then have "z / 2 powi ?k \<le> of_int (- 1)" by simp
  then have "round_half_even (z / 2 powi ?k) \<le> - 1"
    by (rule round_half_even_le)
  then have "of_int (round_half_even (z / 2 powi ?k)) * (2::real) powi ?k < 0"
    using kpos by (simp add: mult_less_0_iff)
  then show ?thesis
    using neg unfolding to_double_def Let_def by (simp add: saturate_neg)
qed

lemma to_double_sign:
  assumes "representable a" "representable b"
  shows "to_double (b - a) \<le> 0 \<longleftrightarrow> b \<le> a"
proof -
  obtain m n :: int where a: "a = of_int m * 2 powi (- 1074)" and b: "b = of_int n * 2 powi (- 1074)"
    using assms by (auto simp: representable_def)
  have u: "(0::real) < 2 powi (- 1074)" by (simp add: zero_less_power_int)
  have d: "b - a = of_int (n - m) * 2 powi (- 1074)"
    by (simp add: a b algebra_simps)
  consider "n = m" | "m < n" | "n < m" by linarith
  then show ?thesis
  proof cases
    case 1
    then show ?thesis by (simp add: a b)
  next
    case 2
    then have "1 \<le> (of_int (n - m) :: real)" by simp
    then have "1 * (2::real) powi (- 1074) \<le> of_int (n - m) * 2 powi (- 1074)"
      using u by (intro mult_right_mono) simp_all
    then have "2 powi (- 1074) \<le> b - a"
      unfolding d by simp
    then have "0 < to_double (b - a)" by (rule to_double_pos)
    moreover have "a < b" using 2 u by (simp add: a b)
    ultimately show ?thesis by simp
  next
    case 3
    then have "(of_int (n - m) :: real) \<le> - 1" by simp
    then have "of_int (n - m) * 2 powi (- 1074) \<le> (- 1) * (2::real) powi (- 1074)"
      using u by (intro mult_right_mono) simp_all
    then have "b - a \<le> - (2 powi (- 1074))"
      unfolding d by simp
    then have "to_double (b - a) < 0" by (rule to_double_neg)
    moreover have "b < a" using 3 u by (simp add: a b)
    ultimately show ?thesis by simp
  qed
qed

lemma powi_53: "(2::real) powi (k + 53) = 2 ^ 53 * 2 powi k"
  by (subst power_int_add) (simp_all add: mult.commute)

lemma quotient_bound:
  fixes x p N :: real
  assumes "0 < p" "\<bar>x\<bar> < N * p"
  shows "x / p \<le> N" "- N \<le> x / p"
proof -
  have "x < N * p" "- (N * p) < x"
    using assms(2) by (simp_all add: abs_less_iff)
  then show "x / p \<le> N" "- N \<le> x / p"
    using assms(1) by (simp_all add: pos_divide_le_eq pos_le_divide_eq)
qed

lemma mantissa_bound:
  "\<bar>round_half_even (x / 2 powi (max (ilog2 \<bar>x\<bar> - 52) (- 1074)))\<bar> \<le> 2 ^ 53"
proof (cases "x = 0")
  case True
  then show ?thesis by simp
next
  case False
  let ?k = "max (ilog2 \<bar>x\<bar> - 52) (- 1074)"
  have kpos: "(0::real) < 2 powi ?k" by (simp add: zero_less_power_int)
  have "\<bar>x\<bar> < 2 powi (ilog2 \<bar>x\<bar> + 1)"
    using ilog2_bounds [of "\<bar>x\<bar>"] False by simp
  also have "\<dots> \<le> 2 powi (?k + 53)"
    by (rule power_int_increasing) simp_all
  finally have "\<bar>x\<bar> < 2 ^ 53 * 2 powi ?k"
    by (simp add: powi_53)
  then have "x / 2 powi ?k \<le> 2 ^ 53" "- (2 ^ 53) \<le> x / 2 powi ?k"
    using kpos by (rule_tac [!] quotient_bound) simp_all
  then have up: "x / 2 powi ?k \<le> of_int (2 ^ 53)"
    and lo: "of_int (- (2 ^ 53)) \<le> x / 2 powi ?k"
    by simp_all
  have "round_half_even (x / 2 powi ?k) \<le> 2 ^ 53"
    using up by (rule round_half_even_le)
  moreover have "- (2 ^ 53) \<le> round_half_even (x / 2 powi ?k)"
    using lo by (rule round_half_even_ge)
  ultimately show ?thesis by linarith
qed

lemma to_double_scaled:
  assumes "\<bar>n\<bar> \<le> 2 ^ 53" "- 1074 \<le> k"
  shows "to_double (of_int n * 2 powi k) = saturate (of_int n * 2 powi k)"
proof (cases "n = 0")
  case True
  then show ?thesis by simp
next
  case False
  let ?r = "of_int n * (2::real) powi k"
  let ?e = "ilog2 \<bar>?r\<bar>"
  let ?k' = "max (?e - 52) (- 1074)"
  have kpos: "(0::real) < 2 powi k" "(0::real) < 2 powi ?k'"
    by (simp_all add: zero_less_power_int)
  have abs_r: "\<bar>?r\<bar> = of_int \<bar>n\<bar> * 2 powi k"
    using kpos by (simp add: abs_mult)
  have rpos: "0 < \<bar>?r\<bar>"
    using False kpos by simp
  have lo: "2 powi ?e \<le> \<bar>?r\<bar>"
    using ilog2_bounds [OF rpos] by simp
  have "\<exists>m :: int. ?r / 2 powi ?k' = of_int m"
  proof (cases "?k' \<le> k")
    case True
    have "?r / 2 powi ?k' = of_int (n * 2 ^ nat (k - ?k'))"
      using kpos by (subst powi_split [OF True]) simp
    then show ?thesis by blast
  next
    case gt: False
    then have k': "?k' = ?e - 52" and e_ge: "k + 53 \<le> ?e"
      using assms(2) by linarith+
    have "(of_int \<bar>n\<bar> :: real) \<le> of_int (2 ^ 53)"
      using assms(1) by (simp only: of_int_le_iff)
    then have "(of_int \<bar>n\<bar> :: real) \<le> 2 ^ 53"
      by simp
    then have "\<bar>?r\<bar> \<le> 2 ^ 53 * 2 powi k"
      unfolding abs_r using kpos by (intro mult_right_mono) simp_all
    then have up: "\<bar>?r\<bar> \<le> 2 powi (k + 53)"
      by (simp add: powi_53)
    have "(2::real) powi ?e \<le> 2 powi (k + 53)"
      using lo up by linarith
    then have "?e \<le> k + 53"
      by (metis power_int_strict_increasing not_less one_less_numeral_iff semiring_norm(76))
    with e_ge have e: "?e = k + 53" by linarith
    have "\<bar>?r\<bar> = 2 powi (k + 53)"
      using lo up e by simp
    then have "of_int \<bar>n\<bar> * 2 powi k = (2 ^ 53 :: real) * 2 powi k"
      unfolding abs_r by (simp add: powi_53)
    then have "(of_int \<bar>n\<bar> :: real) = 2 ^ 53"
      using kpos by simp
    then have "\<bar>n\<bar> = 2 ^ 53"
      by (metis of_int_eq_iff of_int_numeral of_int_power)
    then have "even \<bar>n\<bar>"
      by simp
    then have n: "n = 2 * (n div 2)"
      by simp
    have "?k' = k + 1" using k' e by simp
    then have "(2::real) powi ?k' = 2 * 2 powi k"
      by (simp add: power_int_add)
    then have "?r / 2 powi ?k' = of_int n / 2"
      using kpos by simp
    also have "\<dots> = of_int (n div 2)"
      by (subst n) simp
    finally show ?thesis by blast
  qed
  then obtain m :: int where m: "?r / 2 powi ?k' = of_int m" by blast
  then have r: "of_int m * 2 powi ?k' = ?r"
    using kpos by (simp add: field_simps)
  show ?thesis
    unfolding to_double_def Let_def m round_half_even_of_int r ..
qed

lemma to_double_idem [simp]: "to_double (to_double x) = to_double x"
proof -
  let ?k = "max (ilog2 \<bar>x\<bar> - 52) (- 1074)"
  let ?n = "round_half_even (x / 2 powi ?k)"
  let ?r = "of_int ?n * (2::real) powi ?k"
  have td: "to_double x = saturate ?r"
    by (simp add: to_double_def Let_def)
  have fix_r: "to_double ?r = saturate ?r"
    using mantissa_bound [of x] by (intro to_double_scaled) simp_all
  have big: "to_double (2 powi 1024) = 2 powi 1024"
    using to_double_scaled [of 1 1024] by (simp add: saturate_def)
  have small: "to_double (- (2 powi 1024)) = - (2 powi 1024)"
    using to_double_scaled [of "- 1" 1024] by (simp add: saturate_def)
  show ?thesis
    unfolding td using fix_r big small by (auto simp: saturate_def)
qed

subsection \<open>Sanitizing and previews\<close>

lemma filter_concat_single_or_pair:
  assumes "\<forall>p \<in> set ps. (\<exists>c. p = [c]) \<or> (\<exists>c d. p = [c, d] \<and> is_surrogate c \<and> is_surrogate d)"
  shows "length (filter (\<lambda>c. \<not> is_surrogate c) (concat ps)) \<le> length ps"
  using assms by (induction ps) auto

lemma high_is_surrogate: "is_high_surrogate c \<Longrightarrow> is_surrogate c"
  unfolding is_high_surrogate_def is_surrogate_def
  using order_trans [of c "0xDBFF" "0xDFFF"] by simp

lemma low_is_surrogate: "is_low_surrogate c \<Longrightarrow> is_surrogate c"
  unfolding is_low_surrogate_def is_surrogate_def
  using order_trans [of "0xD800" "0xDC00" c] by simp

lemma code_points_shape:
  "\<forall>p \<in> set (code_points s).
     (\<exists>c. p = [c]) \<or> (\<exists>c d. p = [c, d] \<and> is_surrogate c \<and> is_surrogate d)"
  by (induction s rule: code_points.induct)
    (auto simp: high_is_surrogate low_is_surrogate)

lemma code_points_no_surrogate:
  "\<forall>c \<in> set s. \<not> is_surrogate c \<Longrightarrow> code_points s = map (\<lambda>c. [c]) s"
  by (induction s rule: code_points.induct) (auto dest: high_is_surrogate)

lemma slice0_set: "set (slice0 xs n) \<subseteq> set xs"
  unfolding slice0_def by (auto dest: in_set_takeD)

lemma slice0_length: "0 \<le> n \<Longrightarrow> length (slice0 xs n) \<le> nat n"
  unfolding slice0_def by simp

text \<open>
  C5. The claim: the sanitizer removes only unpaired surrogates and keeps a validly
  matched pair. The code removes every surrogate code unit: U+1F600, encoded as the
  pair D83D DE00, is deleted whole, and a string with a pair inside loses it.
\<close>

theorem stripLoneSurrogates_drops_valid_pair:
  "stripLoneSurrogates (Some [0xD83D, 0xDE00]) = []
   \<and> code_points [0xD83D, 0xDE00] = [[0xD83D, 0xDE00]]
   \<and> \<not> lone_surrogate [0xD83D, 0xDE00]
   \<and> stripLoneSurrogates (Some (js ''a'' @ [0xD83D, 0xDE00] @ js ''b'')) = js ''ab''"
  by (simp add: stripLoneSurrogates_def is_surrogate_def is_high_surrogate_def
      is_low_surrogate_def js_def)

text \<open>
  C6. For every text and every bound \<open>N \<ge> 0\<close>, the preview has at most \<open>N\<close> code
  points and none of them is an unpaired surrogate; an empty or undefined input gives
  the empty string.
\<close>

theorem makePreview_bounded:
  assumes "0 \<le> N"
  shows "int (length (code_points (makePreview T N))) \<le> N
         \<and> (\<forall>p \<in> set (code_points (makePreview T N)). \<not> lone_surrogate p)
         \<and> makePreview None N = []
         \<and> makePreview (Some []) N = []"
proof -
  let ?t = "trim (collapse_spaces (or_empty T))"
  let ?ps = "slice0 (code_points ?t) N"
  have out: "makePreview T N = filter (\<lambda>c. \<not> is_surrogate c) (concat ?ps)"
    by (simp add: makePreview_def stripLoneSurrogates_def safeTruncateByCodepoints_def)
  have clean: "\<forall>c \<in> set (makePreview T N). \<not> is_surrogate c"
    unfolding out by simp
  have cps: "code_points (makePreview T N) = map (\<lambda>c. [c]) (makePreview T N)"
    using clean by (rule code_points_no_surrogate)
  have "\<forall>p \<in> set ?ps.
          (\<exists>c. p = [c]) \<or> (\<exists>c d. p = [c, d] \<and> is_surrogate c \<and> is_surrogate d)"
    using code_points_shape [of ?t] slice0_set [of "code_points ?t" N] by blast
  then have "length (makePreview T N) \<le> length ?ps"
    unfolding out by (rule filter_concat_single_or_pair)
  also have "\<dots> \<le> nat N"
    using assms by (rule slice0_length)
  finally have len: "int (length (code_points (makePreview T N))) \<le> N"
    using assms by (simp add: cps)
  have lone: "\<forall>p \<in> set (code_points (makePreview T N)). \<not> lone_surrogate p"
    using clean by (auto simp: cps)
  have empty: "makePreview None N = []" "makePreview (Some []) N = []"
    by (simp_all add: makePreview_def stripLoneSurrogates_def safeTruncateByCodepoints_def
        trim_def slice0_def)
  from len lone empty show ?thesis by simp
qed

theorem makePreview_bounded_witness:
  "(0::int) \<le> 3
   \<and> makePreview (Some (js ''  a  b'' @ [0xD83D, 0xDE00] @ js ''cd '')) 3 = js ''a b''
   \<and> int (length (code_points
        (makePreview (Some (js ''  a  b'' @ [0xD83D, 0xDE00] @ js ''cd '')) 3))) \<le> 3"
  using makePreview_bounded [of 3 "Some (js ''  a  b'' @ [0xD83D, 0xDE00] @ js ''cd '')"]
  by (simp add: makePreview_def stripLoneSurrogates_def safeTruncateByCodepoints_def
      trim_def slice0_def js_def is_space_def is_surrogate_def is_high_surrogate_def
      is_low_surrogate_def)

subsection \<open>Intent\<close>

lemma starts_with_prefix: "starts_with a s = prefix a s"
  by (induction a s rule: starts_with.induct) auto

lemma regex_test_sublist: "regex_test alts s = (\<exists>a \<in> set alts. sublist a s)"
  by (induction s) (auto simp: list_ex_iff starts_with_prefix sublist_Cons_right)

text \<open>
  C4. The intent is a function of the text alone: with the text in lower case, it is
  \<open>dorm\<close> when one of the housing terms occurs in it, else \<open>study_place\<close> when one of
  the study terms occurs in it, else \<open>general\<close>. A text with terms of both groups is
  \<open>dorm\<close>, since the housing terms are tried first.
\<close>

theorem inferIntent_priority:
  "inferIntent lc q =
     (if \<exists>w \<in> {js ''dorm'', js ''rent'', js ''room'', js ''apartment'', js ''housing'',
                 js ''wohnheim''}. sublist w (lc (or_empty q))
      then dorm
      else if \<exists>w \<in> {js ''study'', js ''library'', js ''quiet'', js ''wifi'', js ''open'',
                      js ''cafe'', js ''outlet'', js ''socket''}. sublist w (lc (or_empty q))
      then study_place
      else general)"
  unfolding inferIntent_def Let_def regex_test_sublist housing_pattern_def study_pattern_def
  by simp

theorem inferIntent_priority_witness:
  "inferIntent ascii_lower (Some (js ''Quiet room in a dorm'')) = dorm
   \<and> inferIntent ascii_lower (Some (js ''quiet place with wifi'')) = study_place
   \<and> inferIntent ascii_lower (Some (js ''visa rules'')) = general
   \<and> inferIntent ascii_lower None = general"
  apply (subst inferIntent_priority)+
  apply (simp add: js_def ascii_lower_def sublist_Cons_right)
  done

subsection \<open>Boost\<close>

lemma scoreBoost_spec: "scoreBoost lc m i = to_double (boost_spec i (candidate_type lc m))"
  by (cases i) (simp_all add: scoreBoost_def candidate_type_def Let_def js_def)

lemma base_score_double [simp]: "to_double (base_score m) = base_score m"
  by (simp add: base_score_def split: option.split)

lemma num_add_0 [simp]: "num_add (base_score m) 0 = base_score m"
  by (simp add: num_add_def)

lemma md_of_with_boost [simp]: "md_of (with_boost lc i m) = md_of m"
  by (simp add: md_of_def with_boost_def)

lemma base_score_with_boost [simp]: "base_score (with_boost lc i m) = base_score m"
  by (simp add: base_score_def with_boost_def)

lemma scoreBoost_with_boost [simp]: "scoreBoost lc (with_boost lc' i' m) i = scoreBoost lc m i"
  by (simp add: scoreBoost_def)

lemma id_cand_with_boost [simp]: "id_cand (with_boost lc i m) = id_cand m"
  by (simp add: with_boost_def)

lemma dedupeKey_with_boost [simp]: "dedupeKey (with_boost lc i m) = dedupeKey m"
  by (simp add: dedupeKey_def Let_def)

lemma has_text_with_boost [simp]: "has_text (with_boost lc i m) = has_text m"
  by (simp add: has_text_def)

text \<open>
  C3. The boosted score is the sum of the score (0 when missing) and the boost: 0.08 for intent
  \<open>dorm\<close> and type dorm, 0.08 for intent \<open>study_place\<close> and type study_place, 0.03
  for intent \<open>general\<close> and type text or text_chunk, and 0 otherwise. For intent
  \<open>dorm\<close>, a candidate of another type keeps its score and one of type dorm gains 0.08.
\<close>

theorem boostedScore_is_score_plus_boost:
  "u_boostedScore (with_boost lc i m)
     = num_add (base_score m) (to_double (boost_spec i (candidate_type lc m)))
   \<and> (candidate_type lc m \<noteq> js ''dorm'' \<longrightarrow> u_boostedScore (with_boost lc dorm m) = base_score m)
   \<and> (candidate_type lc m = js ''dorm'' \<longrightarrow>
        u_boostedScore (with_boost lc dorm m) = num_add (base_score m) (to_double 0.08))"
  by (simp add: with_boost_def scoreBoost_spec)

theorem boostedScore_is_score_plus_boost_witness:
  "candidate_type ascii_lower cand_text \<noteq> js ''dorm''
   \<and> u_boostedScore (with_boost ascii_lower dorm cand_text) = 0.5
   \<and> candidate_type ascii_lower cand_dorm = js ''dorm''
   \<and> u_boostedScore (with_boost ascii_lower dorm cand_dorm) = to_double 0.58"
proof -
  have a: "candidate_type ascii_lower cand_text \<noteq> js ''dorm''"
    by (simp add: candidate_type_def eval_defs)
  have b: "candidate_type ascii_lower cand_dorm = js ''dorm''"
    by (simp add: candidate_type_def eval_defs)
  have c: "base_score cand_text = 0.5" "base_score cand_dorm = 0.5"
    by (simp_all add: eval_defs)
  have d: "num_add 0.5 (to_double 0.08) = to_double 0.58"
    by (simp add: eval_defs)
  have t: "u_boostedScore (with_boost ascii_lower dorm cand_text) = base_score cand_text"
    using a boostedScore_is_score_plus_boost [of ascii_lower dorm cand_text] by blast
  have u: "u_boostedScore (with_boost ascii_lower dorm cand_dorm)
           = num_add (base_score cand_dorm) (to_double 0.08)"
    using b boostedScore_is_score_plus_boost [of ascii_lower dorm cand_dorm] by blast
  from a b d show ?thesis
    unfolding t u c by simp
qed

text \<open>
  The sum is the sum of doubles: with a score of 0.7 and the boost 0.08 it is below
  0.78, as \<^verbatim>\<open>0.7 + 0.08\<close> is \<^verbatim>\<open>0.7799999999999999\<close>.
\<close>

lemma boosted_below_decimal_sum: "num_add (to_double 0.7) (to_double 0.08) < to_double 0.78"
  by (simp add: eval_defs)

subsection \<open>Sort\<close>

lemma representable_boosted: "representable (u_boostedScore (with_boost lc i m))"
  by (simp add: with_boost_def num_add_def to_double_representable)

lemma boosted_is_score_plus_boost:
  "u_boostedScore (with_boost lc i m) = score_plus_boost lc i m"
  by (simp add: with_boost_def score_plus_boost_def scoreBoost_spec)

lemma insort_cmp_insort_key:
  assumes "representable (u_boostedScore x)" "\<forall>y \<in> set ys. representable (u_boostedScore y)"
  shows "insort_cmp by_boosted_desc x ys = insort_key (\<lambda>m. - u_boostedScore m) x ys"
  using assms
  by (induction ys) (simp_all add: by_boosted_desc_def num_sub_def to_double_sign)

lemma sort_cmp_sort_key:
  "\<forall>x \<in> set xs. representable (u_boostedScore x) \<Longrightarrow>
   sort_cmp by_boosted_desc xs = sort_key (\<lambda>m. - u_boostedScore m) xs"
proof (induction xs)
  case (Cons x xs)
  then have "sort_cmp by_boosted_desc xs = sort_key (\<lambda>m. - u_boostedScore m) xs"
    by simp
  then have "sort_cmp by_boosted_desc (x # xs)
             = insort_cmp by_boosted_desc x (sort_key (\<lambda>m. - u_boostedScore m) xs)"
    by (simp add: sort_cmp_def)
  also have "\<dots> = insort_key (\<lambda>m. - u_boostedScore m) x (sort_key (\<lambda>m. - u_boostedScore m) xs)"
    using Cons.prems by (intro insort_cmp_insort_key) simp_all
  finally show ?case by simp
qed (simp add: sort_cmp_def)

lemma boosted_sorted_sort_key:
  "boosted_sorted lc i cands
   = sort_key (\<lambda>m. - u_boostedScore m) (map (with_boost lc i) cands)"
  unfolding boosted_sorted_def
  by (rule sort_cmp_sort_key) (auto simp: representable_boosted)

lemma insort_key_map:
  "insort_key k (f x) (map f ys) = map f (insort_key (\<lambda>c. k (f c)) x ys)"
  by (induction ys) simp_all

lemma sort_key_map: "sort_key k (map f xs) = map f (sort_key (\<lambda>c. k (f c)) xs)"
  by (induction xs) (simp_all add: insort_key_map)

lemma boosted_sorted_map:
  "boosted_sorted lc i cands
   = map (with_boost lc i) (sort_key (\<lambda>c. - score_plus_boost lc i c) cands)"
  by (simp add: boosted_sorted_sort_key sort_key_map boosted_is_score_plus_boost)

lemma set_boosted_sorted: "set (boosted_sorted lc i cands) = with_boost lc i ` set cands"
  by (simp add: boosted_sorted_sort_key)

text \<open>
  The order is that of the sums of doubles: for intent \<open>dorm\<close> the dorm of score 0.7
  has the boosted score \<^verbatim>\<open>0.7799999999999999\<close> and goes after the chunk of score 0.78.
\<close>

lemma boosted_sorted_rounds:
  "boosted_sorted ascii_lower dorm [cand_dorm_07, cand_chunk_078]
   = [with_boost ascii_lower dorm cand_chunk_078, with_boost ascii_lower dorm cand_dorm_07]"
  by (simp add: eval_defs)

lemma subseq_set: "subseq xs ys \<Longrightarrow> set xs \<subseteq> set ys"
  by (auto elim: list_emb_set)

lemma sorted_wrt_subseq: "subseq xs ys \<Longrightarrow> sorted_wrt P ys \<Longrightarrow> sorted_wrt P xs"
proof (induction rule: list_emb.induct)
  case (list_emb_Cons2 x y xs ys)
  then have "set xs \<subseteq> set ys" by (simp add: subseq_set)
  with list_emb_Cons2 show ?case by auto
qed simp_all

lemma subseq_map_ex: "subseq zs (map f ys) \<Longrightarrow> \<exists>xs. subseq xs ys \<and> zs = map f xs"
proof (induction ys arbitrary: zs)
  case Nil
  then show ?case by auto
next
  case (Cons y ys)
  show ?case
  proof (cases zs)
    case Nil
    then show ?thesis by (intro exI [of _ "[]"]) simp
  next
    case (Cons z zs')
    show ?thesis
    proof (cases "z = f y")
      case True
      then have "subseq zs' (map f ys)"
        using Cons.prems Cons by simp
      then obtain xs where "subseq xs ys" "zs' = map f xs"
        using Cons.IH by blast
      then have "subseq (y # xs) (y # ys) \<and> zs = map f (y # xs)"
        using True Cons by simp
      then show ?thesis by blast
    next
      case False
      then have "subseq zs (map f ys)"
        using Cons.prems Cons by simp
      then obtain xs where "subseq xs ys" "zs = map f xs"
        using Cons.IH by blast
      then have "subseq xs (y # ys) \<and> zs = map f xs"
        by (simp add: list_emb_Cons)
      then show ?thesis by blast
    qed
  qed
qed

subsection \<open>The selection walk\<close>

lemma pick_loop_full: "length (picked st) \<ge> 8 \<Longrightarrow> pick_loop st ms = st"
  by (cases ms) simp_all

lemma pick_loop_append: "pick_loop st (xs @ ys) = pick_loop (pick_loop st xs) ys"
  by (induction xs arbitrary: st) (simp_all add: pick_loop_full)

lemma pick_loop_snoc:
  "pick_loop st (xs @ [m]) =
     (if length (picked (pick_loop st xs)) \<ge> 8 then pick_loop st xs
      else pick_step (pick_loop st xs) m)"
  by (simp add: pick_loop_append)

lemma pick_inv_step: "pick_inv st \<Longrightarrow> pick_inv (pick_step st m)"
  by (auto simp: pick_inv_def pick_step_def Let_def)

lemma pick_inv_loop: "pick_inv st \<Longrightarrow> pick_inv (pick_loop st ms)"
  by (induction ms arbitrary: st) (simp_all add: pick_inv_step)

lemma pick_inv_init: "pick_inv \<lparr>picked = [], seen = {}\<rparr>"
  by (simp add: pick_inv_def)

lemma pick_step_subseq:
  "\<exists>zs. picked (pick_step st m) = picked st @ zs \<and> subseq zs [m]"
  by (simp add: pick_step_def Let_def)

lemma pick_loop_subseq:
  "\<exists>zs. picked (pick_loop st ms) = picked st @ zs \<and> subseq zs ms"
proof (induction ms arbitrary: st)
  case (Cons m ms)
  show ?case
  proof (cases "length (picked st) \<ge> 8")
    case True
    then show ?thesis by simp
  next
    case False
    obtain zs where zs: "picked (pick_step st m) = picked st @ zs" "subseq zs [m]"
      using pick_step_subseq by blast
    obtain ws where ws: "picked (pick_loop (pick_step st m) ms) = picked (pick_step st m) @ ws"
      "subseq ws ms"
      using Cons.IH by blast
    have "subseq (zs @ ws) ([m] @ ms)"
      using zs(2) ws(2) by (rule list_emb_append_mono)
    with False zs ws show ?thesis by simp
  qed
qed simp

lemma pick_loop_length:
  "length (picked st) \<le> 8 \<Longrightarrow>
   length (picked (pick_loop st ms)) =
     min 8 (length (picked st) + card (dedupeKey ` {m \<in> set ms. has_text m} - seen st))"
proof (induction ms arbitrary: st)
  case Nil
  then show ?case by simp
next
  case (Cons m ms)
  let ?K = "dedupeKey ` {x \<in> set ms. has_text x}"
  show ?case
  proof (cases "length (picked st) \<ge> 8")
    case True
    with Cons.prems show ?thesis by simp
  next
    case False
    consider (dup) "dedupeKey m \<in> seen st"
      | (blank) "dedupeKey m \<notin> seen st" "\<not> has_text m"
      | (keep) "dedupeKey m \<notin> seen st" "has_text m"
      by blast
    then show ?thesis
    proof cases
      case dup
      then have "dedupeKey ` {x \<in> set (m # ms). has_text x} - seen st = ?K - seen st"
        by auto
      with False dup Cons.IH [of st] Cons.prems show ?thesis
        by (simp add: pick_step_def)
    next
      case blank
      then have "{x \<in> set (m # ms). has_text x} = {x \<in> set ms. has_text x}"
        by auto
      with False blank Cons.IH [of st] Cons.prems show ?thesis
        by (simp add: pick_step_def)
    next
      case keep
      let ?st = "\<lparr>picked = picked st @ [m], seen = insert (dedupeKey m) (seen st)\<rparr>"
      have step: "pick_step st m = ?st"
        using keep by (simp add: pick_step_def)
      have "dedupeKey ` {x \<in> set (m # ms). has_text x} - seen st
            = insert (dedupeKey m) (?K - insert (dedupeKey m) (seen st))"
        using keep by auto
      then have "card (dedupeKey ` {x \<in> set (m # ms). has_text x} - seen st)
            = Suc (card (?K - insert (dedupeKey m) (seen st)))"
        by simp
      moreover have "length (picked (pick_loop ?st ms))
            = min 8 (length (picked ?st) + card (?K - seen ?st))"
        using False by (intro Cons.IH) simp
      ultimately show ?thesis
        using False step by simp
    qed
  qed
qed

lemma rankAndDedupe_picked_after:
  "rankAndDedupe lc cands i = picked_after (boosted_sorted lc i cands)"
  by (simp add: rankAndDedupe_def picked_after_def)

lemma picked_after_subseq: "subseq (picked_after ms) ms"
  using pick_loop_subseq [of "\<lparr>picked = [], seen = {}\<rparr>" ms] by (auto simp: picked_after_def)

lemma eligible_boosted_sorted:
  "dedupeKey ` {m \<in> set (boosted_sorted lc i cands). has_text m}
   = dedupeKey ` {m \<in> set cands. has_text m}"
proof -
  have "{m \<in> set (boosted_sorted lc i cands). has_text m}
        = with_boost lc i ` {m \<in> set cands. has_text m}"
    by (auto simp: set_boosted_sorted)
  then show ?thesis
    by (simp add: image_image)
qed

text \<open>
  C1. When the candidates with text have more than 8 different dedupe keys, exactly 8
  candidates are selected. They are candidates of the index, each with its boosted
  score, the sum of its score and its boost; they are in descending order of that sum,
  and those of equal sum stand in the order in which the index returned them.
\<close>

theorem rankAndDedupe_cap:
  assumes "8 < card (dedupeKey ` {m \<in> set cands. has_text m})"
  shows "length (rankAndDedupe lc cands i) = 8
         \<and> sorted_wrt (\<lambda>a b. score_plus_boost lc i a \<ge> score_plus_boost lc i b)
              (rankAndDedupe lc cands i)
         \<and> (\<exists>cs. rankAndDedupe lc cands i
                  = map (\<lambda>c. \<lparr>id_cand = id_cand c, score = score c, metadata = metadata c,
                              u_boostedScore = score_plus_boost lc i c\<rparr>) cs
                \<and> sorted_wrt (\<lambda>a b. score_plus_boost lc i a \<ge> score_plus_boost lc i b) cs
                \<and> (\<forall>v. subseq (filter (\<lambda>c. score_plus_boost lc i c = v) cs)
                               (filter (\<lambda>c. score_plus_boost lc i c = v) cands)))"
proof -
  let ?spb = "score_plus_boost lc i"
  let ?ranked = "sort_key (\<lambda>c. - ?spb c) cands"
  let ?wb = "\<lambda>c. \<lparr>id_cand = id_cand c, score = score c, metadata = metadata c,
                   u_boostedScore = ?spb c\<rparr>"
  have wb: "with_boost lc i = ?wb"
    by (rule ext) (simp add: with_boost_def score_plus_boost_def scoreBoost_spec)
  have srt: "boosted_sorted lc i cands = map ?wb ?ranked"
    unfolding boosted_sorted_map wb ..
  have "subseq (rankAndDedupe lc cands i) (map ?wb ?ranked)"
    unfolding rankAndDedupe_picked_after srt [symmetric] by (rule picked_after_subseq)
  then obtain cs where cs: "subseq cs ?ranked" "rankAndDedupe lc cands i = map ?wb cs"
    using subseq_map_ex by blast
  have "length (rankAndDedupe lc cands i)
        = min 8 (card (dedupeKey ` {m \<in> set (boosted_sorted lc i cands). has_text m}))"
    unfolding rankAndDedupe_def
    using pick_loop_length [of "\<lparr>picked = [], seen = {}\<rparr>" "boosted_sorted lc i cands"]
    by simp
  with assms have len: "length (rankAndDedupe lc cands i) = 8"
    by (simp add: eligible_boosted_sorted)
  have "sorted (map (\<lambda>c. - ?spb c) ?ranked)"
    by (rule sorted_sort_key)
  then have "sorted_wrt (\<lambda>a b. ?spb a \<ge> ?spb b) ?ranked"
    by (simp add: sorted_map)
  with cs(1) have desc: "sorted_wrt (\<lambda>a b. ?spb a \<ge> ?spb b) cs"
    by (rule sorted_wrt_subseq)
  have spb_wb: "?spb (?wb c) = ?spb c" for c
    by (simp add: score_plus_boost_def base_score_def candidate_type_def md_of_def)
  have desc_out: "sorted_wrt (\<lambda>a b. ?spb a \<ge> ?spb b) (rankAndDedupe lc cands i)"
    unfolding cs(2) using desc by (simp add: sorted_wrt_map spb_wb)
  have stable: "subseq (filter (\<lambda>c. ?spb c = v) cs) (filter (\<lambda>c. ?spb c = v) cands)" for v
  proof -
    have "filter (\<lambda>c. - ?spb c = - v) ?ranked = filter (\<lambda>c. - ?spb c = - v) cands"
      by (rule sort_key_stable)
    then have "filter (\<lambda>c. ?spb c = v) ?ranked = filter (\<lambda>c. ?spb c = v) cands"
      by simp
    then show ?thesis
      using subseq_filter [OF cs(1), of "\<lambda>c. ?spb c = v"] by simp
  qed
  from len desc_out cs(2) desc stable show ?thesis by blast
qed

theorem rankAndDedupe_cap_witness:
  "8 < card (dedupeKey ` {m \<in> set nine_candidates. has_text m})
   \<and> length (rankAndDedupe ascii_lower nine_candidates general) = 8
   \<and> map id_cand (rankAndDedupe ascii_lower nine_candidates general)
     = [Some [0x62], Some [0x68], Some [0x66], Some [0x63], Some [0x64], Some [0x69],
        Some [0x65], Some [0x67]]"
proof -
  have ht: "has_text (numbered c s)" for c s
    by (simp add: eval_defs)
  have key: "dedupeKey (numbered c s) = js ''id:'' @ [c]" for c s
    by (simp add: eval_defs)
  have "{m \<in> set nine_candidates. has_text m} = set nine_candidates"
    by (auto simp: nine_candidates_def ht)
  then have "dedupeKey ` {m \<in> set nine_candidates. has_text m}
             = set (map dedupeKey nine_candidates)"
    by simp
  moreover have "distinct (map dedupeKey nine_candidates)"
    by (simp add: nine_candidates_def key)
  ultimately have h: "8 < card (dedupeKey ` {m \<in> set nine_candidates. has_text m})"
    by (simp add: distinct_card nine_candidates_def)
  have ids: "map id_cand (rankAndDedupe ascii_lower nine_candidates general)
     = [Some [0x62], Some [0x68], Some [0x66], Some [0x63], Some [0x64], Some [0x69],
        Some [0x65], Some [0x67]]"
    by (simp add: nine_candidates_def eval_defs)
  from h ids rankAndDedupe_cap [OF h, of ascii_lower general] show ?thesis by simp
qed

lemma seen_pick_step: "seen st \<subseteq> seen (pick_step st m)"
  by (auto simp: pick_step_def Let_def)

lemma seen_pick_loop: "seen st \<subseteq> seen (pick_loop st ms)"
proof (induction ms arbitrary: st)
  case (Cons m ms)
  then show ?case using seen_pick_step [of st m] by auto
qed simp

lemma picked_length_mono: "length (picked st) \<le> length (picked (pick_loop st ms))"
  using pick_loop_subseq [of st ms] by auto

lemma under_cap_all_seen:
  "length (picked (pick_loop st ms)) < 8 \<Longrightarrow> m' \<in> set ms \<Longrightarrow> has_text m' \<Longrightarrow>
   dedupeKey m' \<in> seen (pick_loop st ms)"
proof (induction ms arbitrary: st)
  case (Cons m ms)
  have open_st: "\<not> length (picked st) \<ge> 8"
    using Cons.prems(1) picked_length_mono [of st "m # ms"] by linarith
  then have res: "pick_loop st (m # ms) = pick_loop (pick_step st m) ms"
    by simp
  show ?case
  proof (cases "m' = m")
    case True
    then have "dedupeKey m' \<in> seen (pick_step st m)"
      using Cons.prems(3) by (auto simp: pick_step_def Let_def)
    then show ?thesis
      unfolding res using seen_pick_loop [of "pick_step st m" ms] by blast
  next
    case False
    then have "m' \<in> set ms" using Cons.prems(2) by simp
    then show ?thesis
      unfolding res using Cons.IH [of "pick_step st m"] Cons.prems(1,3) res by simp
  qed
qed simp

lemma seen_picked_after:
  "seen (pick_loop \<lparr>picked = [], seen = {}\<rparr> ms) = dedupeKey ` set (picked_after ms)"
  using pick_inv_loop [OF pick_inv_init, of ms] by (simp add: pick_inv_def picked_after_def)

lemma walk_step:
  "length (picked_after pre) < 8 \<Longrightarrow>
   picked_after (pre @ [m]) =
     (if dedupeKey m \<in> dedupeKey ` set (picked_after pre) \<or> \<not> has_text m
      then picked_after pre else picked_after pre @ [m])"
  unfolding seen_picked_after [symmetric]
  by (simp add: picked_after_def pick_loop_snoc pick_step_def Let_def)

lemma walk_stop:
  "\<not> length (picked_after pre) < 8 \<Longrightarrow> picked_after (pre @ post) = picked_after pre"
  by (simp add: picked_after_def pick_loop_append pick_loop_full)

lemma picked_first_usable:
  "x \<in> set (picked_after ms) \<Longrightarrow>
   \<exists>pre post. ms = pre @ x # post
     \<and> (\<forall>m' \<in> set pre. has_text m' \<longrightarrow> dedupeKey m' \<noteq> dedupeKey x)"
proof (induction ms rule: rev_induct)
  case Nil
  then show ?case by (simp add: picked_after_def)
next
  case (snoc y ys)
  show ?case
  proof (cases "x \<in> set (picked_after ys)")
    case True
    then obtain pre post where "ys = pre @ x # post"
      "\<forall>m' \<in> set pre. has_text m' \<longrightarrow> dedupeKey m' \<noteq> dedupeKey x"
      using snoc.IH by blast
    then have "ys @ [y] = pre @ x # (post @ [y])
      \<and> (\<forall>m' \<in> set pre. has_text m' \<longrightarrow> dedupeKey m' \<noteq> dedupeKey x)"
      by simp
    then show ?thesis by blast
  next
    case False
    have under: "length (picked_after ys) < 8"
    proof (rule ccontr)
      assume "\<not> length (picked_after ys) < 8"
      then have "picked_after (ys @ [y]) = picked_after ys"
        by (rule walk_stop)
      with False snoc.prems show False by simp
    qed
    then have new: "x = y" "dedupeKey y \<notin> dedupeKey ` set (picked_after ys)"
      using False snoc.prems by (auto simp: walk_step split: if_splits)
    have "\<forall>m' \<in> set ys. has_text m' \<longrightarrow> dedupeKey m' \<noteq> dedupeKey x"
    proof (intro ballI impI)
      fix m' assume "m' \<in> set ys" "has_text m'"
      then have "dedupeKey m' \<in> dedupeKey ` set (picked_after ys)"
        using under under_cap_all_seen [of "\<lparr>picked = [], seen = {}\<rparr>" ys m']
        by (simp add: seen_picked_after) (simp add: picked_after_def)
      with new show "dedupeKey m' \<noteq> dedupeKey x" by auto
    qed
    with new(1) have "ys @ [y] = ys @ x # []
      \<and> (\<forall>m' \<in> set ys. has_text m' \<longrightarrow> dedupeKey m' \<noteq> dedupeKey x)"
      by simp
    then show ?thesis by blast
  qed
qed

lemma picked_after_inv:
  "distinct (map dedupeKey (picked_after ms)) \<and> (\<forall>x \<in> set (picked_after ms). has_text x)"
  using pick_inv_loop [OF pick_inv_init, of ms] by (simp add: pick_inv_def picked_after_def)

lemma dedupeKey_priority:
  "dedupeKey m =
     (if truthy (entity_type (md_of m)) \<and> truthy (entity_id (md_of m))
        then or_empty (entity_type (md_of m)) @ js '':'' @ or_empty (entity_id (md_of m))
      else if truthy (name (md_of m)) then js ''name:'' @ or_empty (name (md_of m))
      else if truthy (section_md (md_of m)) then js ''section:'' @ or_empty (section_md (md_of m))
      else js ''id:'' @ or_empty (id_cand m))"
  by (simp add: dedupeKey_def Let_def)

text \<open>
  C2, as the code has it. While fewer than 8 candidates are accepted, the walk skips a
  candidate exactly when its dedupe key is the key of an accepted candidate or its text
  is empty after trimming, and accepts it otherwise. No two selected candidates share a
  key, every selected candidate has text, and no candidate with the same key and with
  text stands before it in the sorted sequence. The key is the entity type and id when
  both are present, else the name, else the section, else the raw id.
\<close>

theorem selection_walk:
  "(\<forall>pre m post. boosted_sorted lc i cands = pre @ m # post \<and> length (picked_after pre) < 8 \<longrightarrow>
      picked_after (pre @ [m]) =
        (if dedupeKey m \<in> dedupeKey ` set (picked_after pre) \<or> \<not> has_text m
         then picked_after pre else picked_after pre @ [m]))
   \<and> rankAndDedupe lc cands i = picked_after (boosted_sorted lc i cands)
   \<and> distinct (map dedupeKey (rankAndDedupe lc cands i))
   \<and> (\<forall>x \<in> set (rankAndDedupe lc cands i). has_text x
        \<and> (\<exists>pre post. boosted_sorted lc i cands = pre @ x # post
              \<and> (\<forall>m' \<in> set pre. has_text m' \<longrightarrow> dedupeKey m' \<noteq> dedupeKey x)))
   \<and> (\<forall>m :: boosted. dedupeKey m =
        (if truthy (entity_type (md_of m)) \<and> truthy (entity_id (md_of m))
           then or_empty (entity_type (md_of m)) @ js '':'' @ or_empty (entity_id (md_of m))
         else if truthy (name (md_of m)) then js ''name:'' @ or_empty (name (md_of m))
         else if truthy (section_md (md_of m))
           then js ''section:'' @ or_empty (section_md (md_of m))
         else js ''id:'' @ or_empty (id_cand m)))"
proof -
  let ?srt = "boosted_sorted lc i cands"
  have a: "\<forall>pre m post. ?srt = pre @ m # post \<and> length (picked_after pre) < 8 \<longrightarrow>
      picked_after (pre @ [m]) =
        (if dedupeKey m \<in> dedupeKey ` set (picked_after pre) \<or> \<not> has_text m
         then picked_after pre else picked_after pre @ [m])"
    by (intro allI impI, elim conjE, rule walk_step)
  have b: "rankAndDedupe lc cands i = picked_after ?srt"
    by (rule rankAndDedupe_picked_after)
  have c: "distinct (map dedupeKey (rankAndDedupe lc cands i))"
    unfolding b using picked_after_inv [of ?srt] by simp
  have d: "\<forall>x \<in> set (rankAndDedupe lc cands i). has_text x
        \<and> (\<exists>pre post. ?srt = pre @ x # post
              \<and> (\<forall>m' \<in> set pre. has_text m' \<longrightarrow> dedupeKey m' \<noteq> dedupeKey x))"
    unfolding b using picked_after_inv [of ?srt] picked_first_usable [of _ ?srt] by blast
  have e: "\<forall>m :: boosted. dedupeKey m =
        (if truthy (entity_type (md_of m)) \<and> truthy (entity_id (md_of m))
           then or_empty (entity_type (md_of m)) @ js '':'' @ or_empty (entity_id (md_of m))
         else if truthy (name (md_of m)) then js ''name:'' @ or_empty (name (md_of m))
         else if truthy (section_md (md_of m))
           then js ''section:'' @ or_empty (section_md (md_of m))
         else js ''id:'' @ or_empty (id_cand m))"
    by (intro allI, rule dedupeKey_priority)
  show ?thesis
    by (rule conjI [OF a conjI [OF b conjI [OF c conjI [OF d e]]]])
qed

theorem selection_walk_witness:
  "boosted_sorted ascii_lower general [cand_blank, cand_text]
     = [with_boost ascii_lower general cand_blank]
       @ with_boost ascii_lower general cand_text # []
   \<and> length (picked_after [with_boost ascii_lower general cand_blank]) < 8
   \<and> picked_after ([with_boost ascii_lower general cand_blank]
        @ [with_boost ascii_lower general cand_text])
     = picked_after [with_boost ascii_lower general cand_blank]
       @ [with_boost ascii_lower general cand_text]
   \<and> has_text (with_boost ascii_lower general cand_text)"
proof -
  let ?a = "with_boost ascii_lower general cand_blank"
  let ?b = "with_boost ascii_lower general cand_text"
  have s: "boosted_sorted ascii_lower general [cand_blank, cand_text] = [?a] @ ?b # []"
    by (simp add: eval_defs)
  have l: "length (picked_after [?a]) < 8"
    by (simp add: eval_defs)
  have k: "\<not> (dedupeKey ?b \<in> dedupeKey ` set (picked_after [?a]) \<or> \<not> has_text ?b)"
    by (simp add: eval_defs)
  have "picked_after ([?a] @ [?b]) =
        (if dedupeKey ?b \<in> dedupeKey ` set (picked_after [?a]) \<or> \<not> has_text ?b
         then picked_after [?a] else picked_after [?a] @ [?b])"
    using selection_walk [of ascii_lower general "[cand_blank, cand_text]"] s l by blast
  with k have "picked_after ([?a] @ [?b]) = picked_after [?a] @ [?b]"
    by simp
  moreover have "has_text ?b" using k by simp
  ultimately show ?thesis using s l by simp
qed

text \<open>
  The claim C2 says that of the candidates sharing a key only the first in sorted order
  is selected. A candidate without text does not mark its key as seen: here the first
  of two candidates with one key has blank text, and the second is the one selected.
\<close>

theorem selection_not_first_of_key:
  "boosted_sorted ascii_lower general [cand_blank, cand_text]
     = [with_boost ascii_lower general cand_blank, with_boost ascii_lower general cand_text]
   \<and> dedupeKey (with_boost ascii_lower general cand_blank)
     = dedupeKey (with_boost ascii_lower general cand_text)
   \<and> rankAndDedupe ascii_lower [cand_blank, cand_text] general
     = [with_boost ascii_lower general cand_text]"
  by (simp add: eval_defs)

subsection \<open>Projection\<close>

lemma picked_boosted:
  "m \<in> set (rankAndDedupe lc cands i) \<Longrightarrow>
   u_boostedScore m = num_add (base_score m) (scoreBoost lc m i)"
proof -
  assume "m \<in> set (rankAndDedupe lc cands i)"
  then have "m \<in> set (boosted_sorted lc i cands)"
    using subseq_set [OF picked_after_subseq] by (auto simp: rankAndDedupe_picked_after)
  then obtain c where "m = with_boost lc i c"
    by (auto simp: set_boosted_sorted)
  then show ?thesis
    by simp (simp add: with_boost_def)
qed

text \<open>
  C10. The boosted score that the projection computes for a selected candidate is the
  score it was ranked by, and both computations take a missing score as 0.
\<close>

theorem client_boostedScore_is_rank_score:
  "map boostedScore (matchesToClient lc (rankAndDedupe lc cands i) i)
     = map u_boostedScore (rankAndDedupe lc cands i)
   \<and> boostedScore (matchToClient lc i (with_boost lc i m)) = u_boostedScore (with_boost lc i m)
   \<and> (score m = None \<longrightarrow>
        u_boostedScore (with_boost lc i m) = num_add 0 (scoreBoost lc m i)
        \<and> boostedScore (matchToClient lc i m) = num_add 0 (scoreBoost lc m i))"
  by (simp add: matchesToClient_def matchToClient_def Let_def picked_boosted)
    (simp add: with_boost_def base_score_def)

theorem client_boostedScore_is_rank_score_witness:
  "score cand_noscore = None
   \<and> u_boostedScore (with_boost ascii_lower general cand_noscore) = to_double 0.03
   \<and> boostedScore (matchToClient ascii_lower general cand_noscore) = to_double 0.03"
proof -
  have a: "score cand_noscore = None"
    by (simp add: cand_noscore_def)
  have b: "scoreBoost ascii_lower cand_noscore general = to_double 0.03"
    by (simp add: cand_noscore_def no_metadata_def md_of_def scoreBoost_def js_def
        ascii_lower_def Let_def)
  from a b client_boostedScore_is_rank_score [of ascii_lower nine_candidates general cand_noscore]
  show ?thesis by (simp add: num_add_def)
qed

subsection \<open>Validation\<close>

text \<open>
  A request that passes the validation has messages, and the content of the last one is
  a string that is not blank.
\<close>

lemma validate_Inr:
  "validate b = Inr msgs \<Longrightarrow>
   msgs \<noteq> [] \<and> (\<exists>c. get_prop (last msgs) (js ''content'') = Some (JStr c) \<and> trim c \<noteq> [])"
  unfolding validate_def
  by (auto split: option.splits json.splits if_splits simp: Let_def
      elim!: as_string.elims)






subsection \<open>Rewriting\<close>

lemma first_truthy_reply:
  "c \<noteq> [] \<Longrightarrow> first_truthy [map_option trim reply, Some c] [] \<noteq> []"
  by (cases reply) auto

text \<open>
  C9. For a non-empty sequence of turns whose last turn has non-empty content: when the
  rewriting call returns nothing, or a reply that is empty after trimming, the result
  is the raw content of the last turn; and whatever the reply, the result is not empty.
\<close>

theorem rewrite_falls_back:
  assumes "msgs \<noteq> []"
    and "get_prop (last msgs) (js ''content'') = Some (JStr c)" and "c \<noteq> []"
    and "JNull \<notin> set (last12 msgs)"
    and "chat_rewrite sv (map (\<lambda>m. (get_prop m (js ''role''), get_prop m (js ''content'')))
           (last12 msgs)) = Inr reply"
  shows "(reply = None \<or> (\<exists>r. reply = Some r \<and> trim r = []) \<longrightarrow>
            rewriteToStandalone sv msgs = (Inr c, [RewriteCall]))
         \<and> (\<exists>rq. rewriteToStandalone sv msgs = (Inr rq, [RewriteCall]) \<and> rq \<noteq> [])"
proof -
  have "last msgs \<noteq> JNull"
    using assms(2) by auto
  then have "opt_prop (last msgs) (js ''content'') = Some (JStr c)"
    using assms(2) by (cases "last msgs") simp_all
  then have lc: "as_string (last_content msgs) = Some c"
    using assms(1) by (simp add: last_content_def last_elem_def)
  have res: "rewriteToStandalone sv msgs
             = (Inr (first_truthy [map_option trim reply, Some c] []), [RewriteCall])"
    using assms(4,5) by (simp add: rewriteToStandalone_def Let_def lc)
  have "reply = None \<or> (\<exists>r. reply = Some r \<and> trim r = []) \<Longrightarrow>
        first_truthy [map_option trim reply, Some c] [] = c"
    using assms(3) by auto
  moreover have "first_truthy [map_option trim reply, Some c] [] \<noteq> []"
    using assms(3) by (rule first_truthy_reply)
  ultimately show ?thesis
    unfolding res by simp
qed

theorem rewrite_falls_back_witness:
  "[user_turn ''is it quiet?''] \<noteq> []
   \<and> get_prop (last [user_turn ''is it quiet?'']) (js ''content'')
       = Some (JStr (js ''is it quiet?''))
   \<and> js ''is it quiet?'' \<noteq> []
   \<and> JNull \<notin> set (last12 [user_turn ''is it quiet?''])
   \<and> rewriteToStandalone (services_returning (Some (js ''  '')) None)
         [user_turn ''is it quiet?'']
       = (Inr (js ''is it quiet?''), [RewriteCall])"
proof -
  let ?msgs = "[user_turn ''is it quiet?'']"
  let ?sv = "services_returning (Some (js ''  '')) None"
  have a: "?msgs \<noteq> []" by simp
  have b: "get_prop (last ?msgs) (js ''content'') = Some (JStr (js ''is it quiet?''))"
    by (simp add: user_turn_def js_def)
  have c: "js ''is it quiet?'' \<noteq> []" by (simp add: js_def)
  have d: "JNull \<notin> set (last12 ?msgs)" by (simp add: last12_def user_turn_def)
  have e: "chat_rewrite ?sv (map (\<lambda>m. (get_prop m (js ''role''), get_prop m (js ''content'')))
           (last12 ?msgs)) = Inr (Some (js ''  ''))"
    by (simp add: services_returning_def)
  have f: "trim (js ''  '') = []"
    by (simp add: trim_def is_space_def js_def)
  from rewrite_falls_back [OF a b c d e] f a b c d show ?thesis by simp
qed

subsection \<open>Degenerate outcomes\<close>

lemma capped_length_0: "length xs = min 8 n \<Longrightarrow> xs = [] \<longleftrightarrow> n = (0::nat)"
  by (cases n) auto

lemma rankAndDedupe_empty_iff:
  "rankAndDedupe lc ms i = [] \<longleftrightarrow> (\<forall>m \<in> set ms. \<not> has_text m)"
proof -
  let ?K = "dedupeKey ` {m \<in> set ms. has_text m}"
  have len: "length (rankAndDedupe lc ms i) = min 8 (card ?K)"
    unfolding rankAndDedupe_def
    using pick_loop_length [of "\<lparr>picked = [], seen = {}\<rparr>" "boosted_sorted lc i ms"]
    by (simp add: eligible_boosted_sorted)
  have "finite ?K" by simp
  then have "card ?K = 0 \<longleftrightarrow> ?K = {}" by (rule card_0_eq)
  also have "\<dots> \<longleftrightarrow> (\<forall>m \<in> set ms. \<not> has_text m)" by blast
  finally have k: "card ?K = 0 \<longleftrightarrow> (\<forall>m \<in> set ms. \<not> has_text m)" .
  have "rankAndDedupe lc ms i = [] \<longleftrightarrow> card ?K = 0"
    using len by (rule capped_length_0)
  with k show ?thesis by simp
qed

lemma answers_differ: "no_candidates_answer \<noteq> no_usable_answer"
  by (simp add: no_candidates_answer_def no_usable_answer_def js_def)

lemma pipeline_no_candidates:
  assumes "rewriteToStandalone sv msgs = (Inr rq, c1)"
    and "embeddings_create sv (stripLoneSurrogates (Some rq)) = Inr v"
    and "index_query sv v 18 = Inr res"
    and "res = None \<or> res = Some []"
  shows "answer_pipeline lc sv msgs
         = (\<lparr>status = 200, body = AnswerBody no_candidates_answer [] rq None\<rparr>,
            c1 @ [EmbedCall, RetrieveCall])"
  using assms(4)
  by (auto simp: answer_pipeline_def assms(1,2,3) embedQuery_def pineconeQuery_def Let_def)

lemma pipeline_no_usable:
  assumes "rewriteToStandalone sv msgs = (Inr rq, c1)"
    and "embeddings_create sv (stripLoneSurrogates (Some rq)) = Inr v"
    and "index_query sv v 18 = Inr (Some ms)"
    and "ms \<noteq> []" and "\<forall>m \<in> set ms. \<not> has_text m"
  shows "answer_pipeline lc sv msgs
         = (\<lparr>status = 200, body = AnswerBody no_usable_answer [] rq None\<rparr>,
            c1 @ [EmbedCall, RetrieveCall])"
proof -
  have "rankAndDedupe lc ms (inferIntent lc (Some rq)) = []"
    using assms(5) by (simp only: rankAndDedupe_empty_iff)
  then show ?thesis
    using assms(4)
    by (simp add: answer_pipeline_def assms(1,2,3) embedQuery_def pineconeQuery_def Let_def)
qed

text \<open>
  C8, as the code has it. When the index returns no candidate, and when it returns
  candidates none of which has text, the response is a 200 with a fixed answer, no
  matches, the rewritten question and no intent. The two fixed answers are different
  texts.
\<close>

theorem degenerate_outcomes:
  assumes "validate b = Inr msgs"
    and "rewriteToStandalone sv msgs = (Inr rq, c1)"
    and "embeddings_create sv (stripLoneSurrogates (Some rq)) = Inr v"
    and "index_query sv v 18 = Inr res"
  shows "(res = None \<or> res = Some [] \<longrightarrow>
            fst (POST lc sv \<lparr>req_json = Inr b\<rparr>)
            = \<lparr>status = 200, body = AnswerBody no_candidates_answer [] rq None\<rparr>)
         \<and> (\<forall>ms. res = Some ms \<and> ms \<noteq> [] \<and> (\<forall>m \<in> set ms. \<not> has_text m) \<longrightarrow>
            fst (POST lc sv \<lparr>req_json = Inr b\<rparr>)
            = \<lparr>status = 200, body = AnswerBody no_usable_answer [] rq None\<rparr>)
         \<and> no_candidates_answer \<noteq> no_usable_answer"
proof -
  have post: "POST lc sv \<lparr>req_json = Inr b\<rparr> = answer_pipeline lc sv msgs"
    using assms(1) by (simp add: POST_def)
  have a: "res = None \<or> res = Some [] \<longrightarrow>
            fst (POST lc sv \<lparr>req_json = Inr b\<rparr>)
            = \<lparr>status = 200, body = AnswerBody no_candidates_answer [] rq None\<rparr>"
    unfolding post using pipeline_no_candidates [OF assms(2,3,4), of lc] by simp
  have b: "\<forall>ms. res = Some ms \<and> ms \<noteq> [] \<and> (\<forall>m \<in> set ms. \<not> has_text m) \<longrightarrow>
            fst (POST lc sv \<lparr>req_json = Inr b\<rparr>)
            = \<lparr>status = 200, body = AnswerBody no_usable_answer [] rq None\<rparr>"
  proof (intro allI impI, elim conjE)
    fix ms assume "res = Some ms" "ms \<noteq> []" "\<forall>m \<in> set ms. \<not> has_text m"
    then show "fst (POST lc sv \<lparr>req_json = Inr b\<rparr>)
            = \<lparr>status = 200, body = AnswerBody no_usable_answer [] rq None\<rparr>"
      unfolding post using pipeline_no_usable [OF assms(2,3), of ms lc] assms(4) by simp
  qed
  show ?thesis
    by (rule conjI [OF a conjI [OF b answers_differ]])
qed

theorem degenerate_outcomes_witness:
  "validate (body_of [user_turn ''dorm?'']) = Inr [user_turn ''dorm?'']
   \<and> rewriteToStandalone (services_returning None (Some [cand_blank])) [user_turn ''dorm?'']
       = (Inr (js ''dorm?''), [RewriteCall])
   \<and> index_query (services_returning None (Some [cand_blank])) [0.1, 0.2] 18
       = Inr (Some [cand_blank])
   \<and> \<not> has_text cand_blank
   \<and> fst (POST ascii_lower (services_returning None (Some [cand_blank]))
          (request_of [user_turn ''dorm?'']))
       = \<lparr>status = 200, body = AnswerBody no_usable_answer [] (js ''dorm?'') None\<rparr>"
proof -
  let ?sv = "services_returning None (Some [cand_blank])"
  let ?msgs = "[user_turn ''dorm?'']"
  have a: "validate (body_of ?msgs) = Inr ?msgs"
    by (simp add: post_defs trim_def is_space_def js_def)
  have b: "rewriteToStandalone ?sv ?msgs = (Inr (js ''dorm?''), [RewriteCall])"
    by (simp add: post_defs trim_def js_def)
  have c: "embeddings_create ?sv (stripLoneSurrogates (Some (js ''dorm?''))) = Inr [0.1, 0.2]"
    by (simp add: services_returning_def)
  have d: "index_query ?sv [0.1, 0.2] 18 = Inr (Some [cand_blank])"
    by (simp add: services_returning_def)
  have e: "\<not> has_text cand_blank"
    by (simp add: eval_defs)
  have "fst (POST ascii_lower ?sv (request_of ?msgs))
        = \<lparr>status = 200, body = AnswerBody no_usable_answer [] (js ''dorm?'') None\<rparr>"
    using degenerate_outcomes [OF a b c d, of ascii_lower] e by (simp add: request_of_def)
  with a b d e show ?thesis by simp
qed

text \<open>
  The claim C8 says that the two outcomes cannot be told apart from the response. For
  the same request and rewritten question the two responses differ in the answer.
\<close>

theorem degenerate_answers_distinguishable:
  "fst (POST ascii_lower (services_returning None (Some [])) (request_of [user_turn ''dorm?'']))
     = \<lparr>status = 200, body = AnswerBody no_candidates_answer [] (js ''dorm?'') None\<rparr>
   \<and> fst (POST ascii_lower (services_returning None (Some [cand_blank]))
          (request_of [user_turn ''dorm?'']))
     = \<lparr>status = 200, body = AnswerBody no_usable_answer [] (js ''dorm?'') None\<rparr>
   \<and> no_candidates_answer \<noteq> no_usable_answer"
  using answers_differ
  by (simp add: post_defs eval_defs)

end
